theory Spec2Isabelle
  imports Main "HOL-Library.Multiset"
begin

section \<open>Data model of \<open>language_model/dataset.py\<close>\<close>

text \<open>
  Modelled from the spec: the generated module \<open>graph_pb2\<close>, which declares the
  protocol-buffer messages, is not among the sources. A \<open>Graph\<close> holds a repeated
  field \<open>node\<close> of \<open>FeatureNode\<close> (id, type, contents, start and end position) and a
  repeated field \<open>edge\<close> of \<open>FeatureEdge\<close> (source id, destination id, type). Only the
  fields and the enumeration values that \<open>dataset.py\<close>
  reads are kept; every other node kind is \<open>OTHER_NODE\<close>, every other edge kind
  \<open>OTHER_EDGE\<close>. The field \<open>id\<close> is called \<open>node_id\<close> and the two fields \<open>type\<close>
  are called \<open>node_type\<close> and \<open>edge_type\<close>. Python integers are \<open>int\<close>.
\<close>

datatype NodeType = TOKEN | IDENTIFIER_TOKEN | OTHER_NODE

datatype EdgeType = NEXT_TOKEN | OTHER_EDGE

record FeatureNode =
  node_id :: int
  node_type :: NodeType
  contents :: string
  startPosition :: int
  endPosition :: int

record FeatureEdge =
  sourceId :: int
  destinationId :: int
  edge_type :: EdgeType

record Graph =
  node :: "FeatureNode list"
  edge :: "FeatureEdge list"

text \<open>
  The exceptions. \<open>dataset.py\<close> has no \<open>raise\<close> statement of its own: a failing
  dictionary lookup \<open>d[k]\<close> raises \<open>KeyError k\<close>, and \<open>more_itertools.chunked\<close>
  raises \<open>ValueError\<close> on a negative chunk size. The last three constructors are the
  error classes that the specification names; no path of the code below builds them.
\<close>

datatype py_error =
    KeyError int
  | KeyErrorStr string
  | ValueError
  | MissingTokenBoundaryError int int
  | TraversalCycleError
  | ConfigurationError

text \<open>
  \<open>str.lower()\<close> follows the case mappings of the Unicode character database, which is
  part of the Python runtime and not of the sources. Every function below that lowercases
  a token takes the mapping as its first parameter \<open>lower\<close>, and every theorem about
  them holds for every such mapping, Python's among them.
\<close>

section \<open>\<open>load_data_file\<close>\<close>

text \<open>
  The first loop fills three dictionaries and the list \<open>methods\<close>; a later node
  overwrites an earlier one under the same key.
\<close>

record node_index =
  nodes_dict :: "int \<rightharpoonup> FeatureNode"
  tokens_by_start_pos :: "int \<rightharpoonup> FeatureNode"
  tokens_by_end_pos :: "int \<rightharpoonup> FeatureNode"
  methods :: "FeatureNode list"

definition empty_index :: node_index where
  "empty_index =
     \<lparr>nodes_dict = Map.empty, tokens_by_start_pos = Map.empty,
      tokens_by_end_pos = Map.empty, methods = []\<rparr>"

definition index_node :: "node_index \<Rightarrow> FeatureNode \<Rightarrow> node_index" where
  "index_node ix n =
     (let ix1 = ix\<lparr>nodes_dict := (nodes_dict ix)(node_id n \<mapsto> n)\<rparr>;
          ix2 = (if contents n = ''METHOD'' then ix1\<lparr>methods := methods ix1 @ [n]\<rparr> else ix1)
      in if node_type n = TOKEN \<or> node_type n = IDENTIFIER_TOKEN
         then ix2\<lparr>tokens_by_start_pos := (tokens_by_start_pos ix2)(startPosition n \<mapsto> n),
                  tokens_by_end_pos := (tokens_by_end_pos ix2)(endPosition n \<mapsto> n)\<rparr>
         else ix2)"

definition build_index :: "FeatureNode list \<Rightarrow> node_index" where
  "build_index ns = foldl index_node empty_index ns"

text \<open>The second loop: the outgoing edges of every source id, in enumeration order.\<close>

definition add_edge :: "(int \<rightharpoonup> FeatureEdge list) \<Rightarrow> FeatureEdge \<Rightarrow> (int \<rightharpoonup> FeatureEdge list)" where
  "add_edge d e =
     (case d (sourceId e) of
        Some es \<Rightarrow> d(sourceId e \<mapsto> es @ [e])
      | None \<Rightarrow> d(sourceId e \<mapsto> [e]))"

definition build_edges_dict :: "FeatureEdge list \<Rightarrow> (int \<rightharpoonup> FeatureEdge list)" where
  "build_edges_dict es = foldl add_edge Map.empty es"

text \<open>
  The body of the \<open>while\<close> loop after the \<open>append\<close>:
  \<^verbatim>\<open>
    if nid in edges_dict:
        for e in edges_dict[nid]:
            if e.type == FeatureEdge.NEXT_TOKEN:
                nid = e.destinationId
  \<close>
  The list \<open>edges_dict[nid]\<close> is taken once, for the \<open>nid\<close> the iteration started
  with, and the \<open>for\<close> loop has no \<open>break\<close>: every \<open>NEXT_TOKEN\<close> edge assigns \<open>nid\<close>.
\<close>

definition next_nid :: "(int \<rightharpoonup> FeatureEdge list) \<Rightarrow> int \<Rightarrow> int" where
  "next_nid edges_dict nid =
     (case edges_dict nid of
        None \<Rightarrow> nid
      | Some es \<Rightarrow> foldl (\<lambda>n e. if edge_type e = NEXT_TOKEN then destinationId e else n) nid es)"

text \<open>
  One iteration of the \<open>while\<close> loop: the \<open>append\<close>, in which \<open>nodes_dict[nid]\<close>
  raises when \<open>nid\<close> is the id of no node, and then the step to the next node.
\<close>

definition chain_step ::
  "(string \<Rightarrow> string) \<Rightarrow> (int \<rightharpoonup> FeatureNode) \<Rightarrow> (int \<rightharpoonup> FeatureEdge list) \<Rightarrow> int
     \<Rightarrow> string list \<Rightarrow> py_error + int \<times> string list" where
  "chain_step lower nd ed nid tokens =
     (case nd nid of
        None \<Rightarrow> Inl (KeyError nid)
      | Some n \<Rightarrow> Inr (next_nid ed nid, tokens @ [lower (contents n)]))"

text \<open>
  The \<open>while\<close> loop. \<open>end_id\<close> is \<open>tokens_by_end_pos[m.endPosition].id\<close>, which the
  loop test reads again on every iteration from dictionaries that no longer change. The
  loop may run forever: the result \<open>None\<close> is "does not return", \<open>Some (Inl e)\<close> is
  the exception \<open>e\<close>, \<open>Some (Inr tokens)\<close> is the normal exit with the list built.
\<close>

partial_function (option) follow_chain ::
  "(string \<Rightarrow> string) \<Rightarrow> (int \<rightharpoonup> FeatureNode) \<Rightarrow> (int \<rightharpoonup> FeatureEdge list) \<Rightarrow> int \<Rightarrow> int
     \<Rightarrow> string list \<Rightarrow> (py_error + string list) option" where
  "follow_chain lower nd ed end_id nid tokens =
     (if nid = end_id then Some (Inr tokens)
      else case chain_step lower nd ed nid tokens of
             Inl err \<Rightarrow> Some (Inl err)
           | Inr (nid', tokens') \<Rightarrow> follow_chain lower nd ed end_id nid' tokens')"

declare follow_chain.simps [code]

text \<open>One iteration of \<open>for m in methods\<close>, up to the \<open>if len(tokens) > 0\<close>.\<close>

definition method_tokens ::
  "(string \<Rightarrow> string) \<Rightarrow> node_index \<Rightarrow> (int \<rightharpoonup> FeatureEdge list) \<Rightarrow> FeatureNode
     \<Rightarrow> (py_error + string list) option" where
  "method_tokens lower ix ed m =
     (case tokens_by_start_pos ix (startPosition m) of
        None \<Rightarrow> Some (Inl (KeyError (startPosition m)))
      | Some s \<Rightarrow>
          (case tokens_by_end_pos ix (endPosition m) of
             None \<Rightarrow> Some (Inl (KeyError (endPosition m)))
           | Some e \<Rightarrow> follow_chain lower (nodes_dict ix) ed (node_id e) (node_id s) []))"

text \<open>
  \<open>load_data_file\<close> is a generator. Its model is the list of the values it yields,
  in order, together with the way it ends when it is consumed to the end: it is
  exhausted, it raises, or it never comes back from a \<open>next\<close>.
\<close>

datatype outcome = Finished | Raised py_error | Hangs

fun run_methods ::
  "(string \<Rightarrow> string) \<Rightarrow> node_index \<Rightarrow> (int \<rightharpoonup> FeatureEdge list) \<Rightarrow> FeatureNode list
     \<Rightarrow> string list list \<times> outcome" where
  "run_methods lower ix ed [] = ([], Finished)"
| "run_methods lower ix ed (m # ms) =
     (case method_tokens lower ix ed m of
        None \<Rightarrow> ([], Hangs)
      | Some (Inl err) \<Rightarrow> ([], Raised err)
      | Some (Inr tokens) \<Rightarrow>
          (let (ys, out) = run_methods lower ix ed ms
           in (if length tokens > 0 then tokens # ys else ys, out)))"

text \<open>The file is read and parsed outside the model: the argument is the parsed graph.\<close>

definition load_data_file :: "(string \<Rightarrow> string) \<Rightarrow> Graph \<Rightarrow> string list list \<times> outcome" where
  "load_data_file lower g =
     (let ix = build_index (node g); edges_dict = build_edges_dict (edge g)
      in run_methods lower ix edges_dict (methods ix))"

section \<open>The vocabulary\<close>

text \<open>
  Modelled from the spec: the class \<open>Vocabulary\<close> comes from the library
  \<open>dpu_utils\<close>, which is not among the sources. The specification describes it as an
  ordered bidirectional mapping between token strings and small non-negative ids, with a
  query \<open>token \<rightarrow> id\<close> that answers the unknown id on a miss, a query \<open>id \<rightarrow> token\<close>,
  a size, and an insertion that gives a new token the next free id and leaves a known
  token where it is. A query on a vocabulary that was built without the unknown symbol
  has no id to fall back on: it is the failing lookup \<open>token_to_id[get_unk()]\<close>.
\<close>

record Vocabulary =
  token_to_id :: "string \<rightharpoonup> nat"
  id_to_token :: "string list"

definition get_unk :: string where
  "get_unk = ''%UNK%''"

definition get_pad :: string where
  "get_pad = ''%PAD%''"

definition add_or_get_id :: "Vocabulary \<Rightarrow> string \<Rightarrow> nat \<times> Vocabulary" where
  "add_or_get_id vocab token =
     (case token_to_id vocab token of
        Some this_id \<Rightarrow> (this_id, vocab)
      | None \<Rightarrow>
          (let this_id = length (id_to_token vocab)
           in (this_id, \<lparr>token_to_id = (token_to_id vocab)(token \<mapsto> this_id),
                         id_to_token = id_to_token vocab @ [token]\<rparr>)))"

definition get_id_or_unk :: "Vocabulary \<Rightarrow> string \<Rightarrow> py_error + nat" where
  "get_id_or_unk vocab token =
     (case token_to_id vocab token of
        Some this_id \<Rightarrow> Inr this_id
      | None \<Rightarrow>
          (case token_to_id vocab get_unk of
             Some unk_id \<Rightarrow> Inr unk_id
           | None \<Rightarrow> Inl (KeyErrorStr get_unk)))"

definition new_Vocabulary :: "bool \<Rightarrow> bool \<Rightarrow> Vocabulary" where
  "new_Vocabulary add_unk add_pad =
     (let v0 = \<lparr>token_to_id = Map.empty, id_to_token = []\<rparr>;
          v1 = (if add_unk then snd (add_or_get_id v0 get_unk) else v0)
      in if add_pad then snd (add_or_get_id v1 get_pad) else v1)"

definition vocab_len :: "Vocabulary \<Rightarrow> nat" where
  "vocab_len vocab = length (id_to_token vocab)"

definition START_SYMBOL :: string where
  "START_SYMBOL = ''%START%''"

definition END_SYMBOL :: string where
  "END_SYMBOL = ''%END%''"

section \<open>\<open>build_vocab_from_data_dir\<close>\<close>

text \<open>
  Modelled from the spec: \<open>collections.Counter\<close> belongs to Python's library, not to
  the sources; the specification has it count every token and select the most frequent
  ones, ties in first-encountered order. It is a dictionary that keeps its keys in the order of their
  first insertion: an association list. \<open>cnt[token] += 1\<close> adds one to the count of a
  key that is there and appends a new key with count 1. \<open>most_common(n)\<close> is the first
  \<open>n\<close> entries of the stable sort by decreasing count, and no entry when \<open>n \<le> 0\<close>.
\<close>

type_synonym Counter = "(string \<times> nat) list"

fun counter_incr :: "Counter \<Rightarrow> string \<Rightarrow> Counter" where
  "counter_incr [] token = [(token, 1)]"
| "counter_incr ((k, c) # kvs) token =
     (if k = token then (k, c + 1) # kvs else (k, c) # counter_incr kvs token)"

definition most_common :: "Counter \<Rightarrow> int \<Rightarrow> (string \<times> nat) list" where
  "most_common cnt n = take (nat n) (sort_key (\<lambda>kc. - int (snd kc)) cnt)"

definition count_tokens :: "Counter \<Rightarrow> string list list \<Rightarrow> Counter" where
  "count_tokens cnt token_seqs =
     foldl (\<lambda>c token_seq. foldl counter_incr c token_seq) cnt token_seqs"

text \<open>
  \<open>for path in data_files: for token_seq in load_data_file(path): ...\<close>, on the
  parsed graphs of the data files. An exception of the generator leaves the function,
  and a generator that hangs keeps it from returning.
\<close>

fun count_files ::
  "(string \<Rightarrow> string) \<Rightarrow> Graph list \<Rightarrow> Counter \<Rightarrow> (py_error + Counter) option" where
  "count_files lower [] cnt = Some (Inr cnt)"
| "count_files lower (g # gs) cnt =
     (case load_data_file lower g of
        (token_seqs, Finished) \<Rightarrow> count_files lower gs (count_tokens cnt token_seqs)
      | (token_seqs, Raised err) \<Rightarrow> Some (Inl err)
      | (token_seqs, Hangs) \<Rightarrow> None)"

definition build_vocab_from_data_dir ::
  "(string \<Rightarrow> string) \<Rightarrow> Graph list \<Rightarrow> int \<Rightarrow> (py_error + Vocabulary) option" where
  "build_vocab_from_data_dir lower data_files vocab_size =
     (let vocab0 = new_Vocabulary True True;
          vocab1 = snd (add_or_get_id vocab0 START_SYMBOL);
          vocab2 = snd (add_or_get_id vocab1 END_SYMBOL)
      in case count_files lower data_files [] of
           None \<Rightarrow> None
         | Some (Inl err) \<Rightarrow> Some (Inl err)
         | Some (Inr cnt) \<Rightarrow>
             Some (Inr (foldl (\<lambda>vocab kc. snd (add_or_get_id vocab (fst kc))) vocab2
                          (most_common cnt vocab_size))))"

section \<open>\<open>tensorise_token_sequence\<close>\<close>

text \<open>The body of \<open>for i in range(length)\<close>: the id appended at index \<open>i\<close>.\<close>

definition tensorise_entry :: "Vocabulary \<Rightarrow> string list \<Rightarrow> nat \<Rightarrow> py_error + nat" where
  "tensorise_entry vocab token_seq i =
     (if i = 0 then get_id_or_unk vocab START_SYMBOL
      else if length token_seq \<ge> i then get_id_or_unk vocab (token_seq ! (i - 1))
      else if i = length token_seq + 1 then get_id_or_unk vocab END_SYMBOL
      else get_id_or_unk vocab get_pad)"

fun tensorise_loop :: "Vocabulary \<Rightarrow> string list \<Rightarrow> nat list \<Rightarrow> nat list \<Rightarrow> py_error + nat list" where
  "tensorise_loop vocab token_seq [] tensorised = Inr tensorised"
| "tensorise_loop vocab token_seq (i # ks) tensorised =
     (case tensorise_entry vocab token_seq i of
        Inl err \<Rightarrow> Inl err
      | Inr v \<Rightarrow> tensorise_loop vocab token_seq ks (tensorised @ [v]))"

text \<open>
  The parameter \<open>length\<close> is \<open>len\<close> here; \<open>range(length)\<close> is empty when it is not
  positive.
\<close>

definition tensorise_token_sequence :: "Vocabulary \<Rightarrow> int \<Rightarrow> string list \<Rightarrow> py_error + nat list" where
  "tensorise_token_sequence vocab len token_seq =
     tensorise_loop vocab token_seq [0..<nat len] []"

section \<open>\<open>get_minibatch_iterator\<close>\<close>

text \<open>
  Modelled from the spec: \<open>chunked\<close> comes from the library \<open>more_itertools\<close>, which
  is not among the sources; the specification has it partition the indices into
  consecutive chunks of \<open>batch_size\<close>. \<open>chunked(iterable, n)\<close>: consecutive lists of \<open>n\<close> elements, the last
  one shorter when the elements run out; nothing at all for \<open>n = 0\<close>.
\<close>

function chunked :: "'a list \<Rightarrow> nat \<Rightarrow> 'a list list" where
  "chunked xs n = (if n = 0 \<or> xs = [] then [] else take n xs # chunked (drop n xs) n)"
  by pat_completeness auto
termination
  by (relation "measure (\<lambda>(xs, n). length xs)") auto

declare chunked.simps [simp del]

text \<open>
  The \<open>for\<close> loop with its \<open>break\<close>: the chunks of indices whose batch is yielded.
\<close>

fun emit_chunks :: "int \<Rightarrow> bool \<Rightarrow> nat list list \<Rightarrow> nat list list" where
  "emit_chunks batch_size drop_remainder [] = []"
| "emit_chunks batch_size drop_remainder (minibatch_indices # rest) =
     (if int (length minibatch_indices) < batch_size \<and> drop_remainder then []
      else minibatch_indices # emit_chunks batch_size drop_remainder rest)"

text \<open>
  \<open>np.random.shuffle\<close> draws from numpy's global random state. The model takes the
  rearrangement as a parameter \<open>shuffle\<close>; what numpy guarantees of it, that the result
  is a permutation of the argument, is a hypothesis where a theorem needs it. \<open>N\<close> is
  \<open>token_seqs.shape[0]\<close>. A negative \<open>batch_size\<close> makes \<open>chunked\<close> raise at the first
  request.
\<close>

definition minibatch_index_chunks ::
  "(nat list \<Rightarrow> nat list) \<Rightarrow> nat \<Rightarrow> int \<Rightarrow> bool \<Rightarrow> bool \<Rightarrow> py_error + nat list list" where
  "minibatch_index_chunks shuffle N batch_size is_training drop_remainder =
     (let indices = [0..<N];
          indices = (if is_training then shuffle indices else indices)
      in if batch_size < 0 then Inl ValueError
         else Inr (emit_chunks batch_size drop_remainder (chunked indices (nat batch_size))))"

text \<open>\<open>token_seqs[minibatch_indices]\<close>: the rows at the chosen indices, in that order.\<close>

definition gather_rows :: "'row list \<Rightarrow> nat list \<Rightarrow> 'row list" where
  "gather_rows token_seqs minibatch_indices = map (\<lambda>i. token_seqs ! i) minibatch_indices"

definition get_minibatch_iterator ::
  "(nat list \<Rightarrow> nat list) \<Rightarrow> 'row list \<Rightarrow> int \<Rightarrow> bool \<Rightarrow> bool \<Rightarrow> py_error + 'row list list" where
  "get_minibatch_iterator shuffle token_seqs batch_size is_training drop_remainder =
     (case minibatch_index_chunks shuffle (length token_seqs) batch_size is_training drop_remainder of
        Inl err \<Rightarrow> Inl err
      | Inr chunks \<Rightarrow> Inr (map (gather_rows token_seqs) chunks))"

section \<open>Notions used in the statements\<close>

text \<open>
  A graph whose \<open>NEXT_TOKEN\<close> edges all lead to ids of its own nodes; the token lists
  of the longest run of results that are normal returns; and the test for a normal return.
\<close>

definition edges_lead_to_nodes :: "Graph \<Rightarrow> bool" where
  "edges_lead_to_nodes g =
     (\<forall>e\<in>set (edge g). edge_type e = NEXT_TOKEN \<longrightarrow> destinationId e \<in> node_id ` set (node g))"

fun returned_prefix :: "(py_error + string list) option list \<Rightarrow> string list list" where
  "returned_prefix (Some (Inr tokens) # rs) = tokens # returned_prefix rs"
| "returned_prefix rs = []"

definition returns_normally :: "(py_error + string list) option \<Rightarrow> bool" where
  "returns_normally r = (case r of Some (Inr tokens) \<Rightarrow> True | _ \<Rightarrow> False)"

text \<open>
  The edges of the graph as relations on node ids: some \<open>NEXT_TOKEN\<close> edge leads from
  \<open>a\<close> to \<open>b\<close>; the last \<open>NEXT_TOKEN\<close> edge out of \<open>a\<close>, in the order of the edge
  list, leads to \<open>b\<close>. In an unambiguous graph the \<open>NEXT_TOKEN\<close> edges out of one node
  all have the same destination.
\<close>

definition next_token_edge :: "Graph \<Rightarrow> int \<Rightarrow> int \<Rightarrow> bool" where
  "next_token_edge g a b =
     (\<exists>e\<in>set (edge g). sourceId e = a \<and> edge_type e = NEXT_TOKEN \<and> destinationId e = b)"

definition last_next_token_edge :: "Graph \<Rightarrow> int \<Rightarrow> int \<Rightarrow> bool" where
  "last_next_token_edge g a b =
     (filter (\<lambda>e. sourceId e = a \<and> edge_type e = NEXT_TOKEN) (edge g) \<noteq> []
      \<and> destinationId (last (filter (\<lambda>e. sourceId e = a \<and> edge_type e = NEXT_TOKEN) (edge g))) = b)"

definition next_token_unambiguous :: "Graph \<Rightarrow> bool" where
  "next_token_unambiguous g =
     (\<forall>e\<in>set (edge g). \<forall>e'\<in>set (edge g).
        edge_type e = NEXT_TOKEN \<and> edge_type e' = NEXT_TOKEN \<and> sourceId e = sourceId e'
        \<longrightarrow> destinationId e = destinationId e')"

abbreviation index_of :: "Graph \<Rightarrow> node_index" where
  "index_of g \<equiv> build_index (node g)"

abbreviation edges_of :: "Graph \<Rightarrow> (int \<rightharpoonup> FeatureEdge list)" where
  "edges_of g \<equiv> build_edges_dict (edge g)"

section \<open>Example graphs\<close>

text \<open>
  The lowercase mapping of the examples: what \<open>str.lower()\<close> does on ASCII text, the
  only text in the example graphs.
\<close>

definition ascii_lower_char :: "char \<Rightarrow> char" where
  "ascii_lower_char c =
     (let k = (of_char c :: nat) in if 65 \<le> k \<and> k \<le> 90 then char_of (k + 32) else c)"

definition ascii_lower :: "string \<Rightarrow> string" where
  "ascii_lower s = map ascii_lower_char s"

text \<open>
  A method over the tokens \<open>A\<close> \<open>...\<close> \<open>}\<close> in which token 1 has two \<open>NEXT_TOKEN\<close>
  edges, to 2 and to 3.
\<close>

definition fork_graph :: Graph where
  "fork_graph =
     \<lparr>node =
        [\<lparr>node_id = 0, node_type = OTHER_NODE, contents = ''METHOD'', startPosition = 0, endPosition = 9\<rparr>,
         \<lparr>node_id = 1, node_type = TOKEN, contents = ''A'', startPosition = 0, endPosition = 1\<rparr>,
         \<lparr>node_id = 2, node_type = TOKEN, contents = ''b'', startPosition = 2, endPosition = 3\<rparr>,
         \<lparr>node_id = 3, node_type = IDENTIFIER_TOKEN, contents = ''c'', startPosition = 4, endPosition = 5\<rparr>,
         \<lparr>node_id = 4, node_type = TOKEN, contents = ''}'', startPosition = 8, endPosition = 9\<rparr>],
      edge =
        [\<lparr>sourceId = 1, destinationId = 2, edge_type = NEXT_TOKEN\<rparr>,
         \<lparr>sourceId = 1, destinationId = 3, edge_type = NEXT_TOKEN\<rparr>,
         \<lparr>sourceId = 2, destinationId = 4, edge_type = NEXT_TOKEN\<rparr>,
         \<lparr>sourceId = 3, destinationId = 4, edge_type = NEXT_TOKEN\<rparr>]\<rparr>"

text \<open>
  Further graphs of one or two methods over tokens 1, 2, ..., the closing token 4 ending
  at position 9: a chain that runs in a circle, a chain that stops at a node with no
  \<open>NEXT_TOKEN\<close> edge, edges to an id that is no node, a fork whose last branch is a
  dead end, a method whose span starts at no token, and a method whose start token is its
  end token.
\<close>

definition method_node :: "int \<Rightarrow> int \<Rightarrow> int \<Rightarrow> FeatureNode" where
  "method_node i s e =
     \<lparr>node_id = i, node_type = OTHER_NODE, contents = ''METHOD'', startPosition = s, endPosition = e\<rparr>"

definition token_node :: "int \<Rightarrow> string \<Rightarrow> int \<Rightarrow> int \<Rightarrow> FeatureNode" where
  "token_node i c s e =
     \<lparr>node_id = i, node_type = TOKEN, contents = c, startPosition = s, endPosition = e\<rparr>"

definition next_edge :: "int \<Rightarrow> int \<Rightarrow> FeatureEdge" where
  "next_edge a b = \<lparr>sourceId = a, destinationId = b, edge_type = NEXT_TOKEN\<rparr>"

definition other_edge :: "int \<Rightarrow> int \<Rightarrow> FeatureEdge" where
  "other_edge a b = \<lparr>sourceId = a, destinationId = b, edge_type = OTHER_EDGE\<rparr>"

definition cycle_graph :: Graph where
  "cycle_graph =
     \<lparr>node = [method_node 0 0 9, token_node 1 ''A'' 0 1, token_node 2 ''b'' 2 3, token_node 4 ''}'' 8 9],
      edge = [next_edge 1 2, next_edge 2 1]\<rparr>"

definition stuck_graph :: Graph where
  "stuck_graph =
     \<lparr>node = [method_node 0 0 9, token_node 1 ''A'' 0 1, token_node 2 ''b'' 2 3, token_node 4 ''}'' 8 9],
      edge = [next_edge 1 2, other_edge 2 4]\<rparr>"

definition dangling_graph :: Graph where
  "dangling_graph =
     \<lparr>node = [method_node 0 0 9, token_node 1 ''A'' 0 1, token_node 4 ''}'' 8 9],
      edge = [next_edge 1 7]\<rparr>"

definition dangling_through_graph :: Graph where
  "dangling_through_graph =
     \<lparr>node = [method_node 0 0 9, token_node 1 ''A'' 0 1, token_node 4 ''}'' 8 9],
      edge = [next_edge 1 7, next_edge 7 4]\<rparr>"

definition fork_dead_graph :: Graph where
  "fork_dead_graph =
     \<lparr>node = [method_node 0 0 9, token_node 1 ''A'' 0 1, token_node 2 ''b'' 2 3,
              token_node 3 ''c'' 4 5, token_node 4 ''}'' 8 9],
      edge = [next_edge 1 2, next_edge 1 3, next_edge 2 4]\<rparr>"

definition unbounded_method_graph :: Graph where
  "unbounded_method_graph =
     \<lparr>node = [method_node 0 0 9, token_node 1 ''A'' 0 1, token_node 4 ''}'' 8 9, method_node 5 50 60],
      edge = [next_edge 1 4]\<rparr>"

definition hang_then_unbounded_graph :: Graph where
  "hang_then_unbounded_graph =
     \<lparr>node = [method_node 0 0 9, token_node 1 ''A'' 0 1, token_node 4 ''}'' 8 9, method_node 5 50 60],
      edge = []\<rparr>"

definition two_method_graph :: Graph where
  "two_method_graph =
     \<lparr>node = [method_node 0 0 1, token_node 1 ''x'' 0 1, method_node 5 2 9,
              token_node 2 ''Int'' 2 3, token_node 3 ''foo'' 4 5, token_node 4 ''}'' 8 9],
      edge = [next_edge 2 3, next_edge 3 4]\<rparr>"


text \<open>
  The vocabulary as \<open>build_vocab_from_data_dir\<close> has it before any corpus token is
  added: the unknown, pad, start and end symbols, with the ids 0, 1, 2, 3.
\<close>

definition reserved_vocab :: Vocabulary where
  "reserved_vocab =
     snd (add_or_get_id (snd (add_or_get_id (new_Vocabulary True True) START_SYMBOL)) END_SYMBOL)"

section \<open>The token chain\<close>

subsection \<open>The edge index and the next node\<close>

lemma foldl_assign_none:
  "filter P es = [] \<Longrightarrow> foldl (\<lambda>n e. if P e then d e else n) nid es = nid"
  by (induction es rule: rev_induct) (auto split: if_splits)

lemma foldl_assign_last:
  "filter P es \<noteq> [] \<Longrightarrow> foldl (\<lambda>n e. if P e then d e else n) nid es = d (last (filter P es))"
  by (induction es rule: rev_induct) (auto split: if_splits)

lemma build_edges_dict_snoc:
  "build_edges_dict (es @ [e]) = add_edge (build_edges_dict es) e"
  by (simp add: build_edges_dict_def)

lemma build_edges_dict_lookup:
  "build_edges_dict es x =
     (if filter (\<lambda>e. sourceId e = x) es = [] then None else Some (filter (\<lambda>e. sourceId e = x) es))"
proof (induction es rule: rev_induct)
  case Nil
  show ?case by (simp add: build_edges_dict_def)
next
  case (snoc e es)
  show ?case
    unfolding build_edges_dict_snoc
    using snoc by (auto simp add: add_edge_def split: option.splits if_splits)
qed

lemma filter_next_of_source:
  "filter (\<lambda>e. edge_type e = NEXT_TOKEN) (filter (\<lambda>e. sourceId e = x) es)
     = filter (\<lambda>e. sourceId e = x \<and> edge_type e = NEXT_TOKEN) es"
  by (induction es) auto

lemma next_nid_graph:
  "next_nid (build_edges_dict es) x =
     (if filter (\<lambda>e. sourceId e = x \<and> edge_type e = NEXT_TOKEN) es = [] then x
      else destinationId (last (filter (\<lambda>e. sourceId e = x \<and> edge_type e = NEXT_TOKEN) es)))"
proof (cases "filter (\<lambda>e. sourceId e = x) es = []")
  case True
  then have "filter (\<lambda>e. sourceId e = x \<and> edge_type e = NEXT_TOKEN) es = []"
    by (auto simp: filter_empty_conv)
  with True show ?thesis by (simp add: next_nid_def build_edges_dict_lookup)
next
  case False
  then show ?thesis
    using foldl_assign_none[of "\<lambda>e. edge_type e = NEXT_TOKEN" "filter (\<lambda>e. sourceId e = x) es" destinationId x]
      foldl_assign_last[of "\<lambda>e. edge_type e = NEXT_TOKEN" "filter (\<lambda>e. sourceId e = x) es" destinationId x]
    by (simp add: next_nid_def build_edges_dict_lookup filter_next_of_source)
qed

text \<open>
  Claim C1, as the code has it. When the current node \<open>nid\<close> is not the end node and
  has more than one outgoing \<open>NEXT_TOKEN\<close> edge, the traversal appends the node's
  lowercased contents and goes on from the destination of the LAST such edge, in the order
  of the graph's edge list: the \<open>for\<close> loop over the outgoing edges has no \<open>break\<close>.
\<close>

theorem chain_takes_last_next_token_edge:
  assumes "1 < length (filter (\<lambda>e. sourceId e = nid \<and> edge_type e = NEXT_TOKEN) (edge g))"
    and "nid \<noteq> end_id"
    and "nodes_dict (build_index (node g)) nid = Some n"
  shows "chain_step lower (nodes_dict (build_index (node g))) (build_edges_dict (edge g)) nid tokens =
           Inr (destinationId (last (filter (\<lambda>e. sourceId e = nid \<and> edge_type e = NEXT_TOKEN) (edge g))),
                tokens @ [lower (contents n)])
       \<and> follow_chain lower (nodes_dict (build_index (node g))) (build_edges_dict (edge g)) end_id nid tokens =
           follow_chain lower (nodes_dict (build_index (node g))) (build_edges_dict (edge g)) end_id
             (destinationId (last (filter (\<lambda>e. sourceId e = nid \<and> edge_type e = NEXT_TOKEN) (edge g))))
             (tokens @ [lower (contents n)])"
proof -
  from assms(1) have ne: "filter (\<lambda>e. sourceId e = nid \<and> edge_type e = NEXT_TOKEN) (edge g) \<noteq> []"
    by auto
  then have nx: "next_nid (build_edges_dict (edge g)) nid =
           destinationId (last (filter (\<lambda>e. sourceId e = nid \<and> edge_type e = NEXT_TOKEN) (edge g)))"
    by (simp add: next_nid_graph)
  show ?thesis
    using nx assms(2,3) by (subst follow_chain.simps) (simp add: chain_step_def)
qed

theorem chain_takes_last_next_token_edge_witness:
  "1 < length (filter (\<lambda>e. sourceId e = 1 \<and> edge_type e = NEXT_TOKEN) (edge fork_graph))
   \<and> (1::int) \<noteq> 4
   \<and> nodes_dict (build_index (node fork_graph)) 1 =
        Some \<lparr>node_id = 1, node_type = TOKEN, contents = ''A'', startPosition = 0, endPosition = 1\<rparr>
   \<and> chain_step ascii_lower (nodes_dict (build_index (node fork_graph))) (build_edges_dict (edge fork_graph)) 1 [] =
        Inr (3, [''a''])
   \<and> follow_chain ascii_lower (nodes_dict (build_index (node fork_graph))) (build_edges_dict (edge fork_graph)) 4 1 [] =
       follow_chain ascii_lower (nodes_dict (build_index (node fork_graph))) (build_edges_dict (edge fork_graph)) 4 3 [''a'']"
proof -
  have a: "1 < length (filter (\<lambda>e. sourceId e = 1 \<and> edge_type e = NEXT_TOKEN) (edge fork_graph))"
    by (simp add: fork_graph_def)
  have b: "(1::int) \<noteq> 4" by simp
  have c: "nodes_dict (build_index (node fork_graph)) 1 =
        Some \<lparr>node_id = 1, node_type = TOKEN, contents = ''A'', startPosition = 0, endPosition = 1\<rparr>"
    by (simp add: fork_graph_def build_index_def index_node_def empty_index_def)
  have d: "destinationId (last (filter (\<lambda>e. sourceId e = 1 \<and> edge_type e = NEXT_TOKEN) (edge fork_graph))) = 3"
    by (simp add: fork_graph_def)
  have e: "ascii_lower ''A'' = ''a''" by code_simp
  from chain_takes_last_next_token_edge[OF a b c, where tokens = "[]" and lower = ascii_lower] a b c d e show ?thesis by simp
qed

text \<open>
  Claim C1 as stated (the destination of the FIRST such edge) fails: in \<open>fork_graph\<close>
  node 1 has the \<open>NEXT_TOKEN\<close> edges to 2 and to 3, in this order, and the node
  visited after 1 is 3; the method's tokens are \<open>a\<close>, \<open>c\<close>.
\<close>

theorem first_next_token_edge_counterexample:
  "build_edges_dict (edge fork_graph) 1 =
      Some [\<lparr>sourceId = 1, destinationId = 2, edge_type = NEXT_TOKEN\<rparr>,
            \<lparr>sourceId = 1, destinationId = 3, edge_type = NEXT_TOKEN\<rparr>]
   \<and> next_nid (build_edges_dict (edge fork_graph)) 1 = 3
   \<and> next_nid (build_edges_dict (edge fork_graph)) 1
        \<noteq> destinationId \<lparr>sourceId = 1, destinationId = 2, edge_type = NEXT_TOKEN\<rparr>
   \<and> load_data_file ascii_lower fork_graph = ([[''a'', ''c'']], Finished)"
  by code_simp


section \<open>The tensoriser\<close>

lemma get_id_or_unk_total:
  assumes "token_to_id vocab get_unk = Some unk_id"
  shows "get_id_or_unk vocab token =
           Inr (case token_to_id vocab token of Some this_id \<Rightarrow> this_id | None \<Rightarrow> unk_id)"
  using assms by (simp add: get_id_or_unk_def split: option.splits)

lemma tensorise_loop_all_ok:
  assumes "\<forall>i\<in>set ks. tensorise_entry vocab token_seq i = Inr (f i)"
  shows "tensorise_loop vocab token_seq ks acc = Inr (acc @ map f ks)"
  using assms by (induction ks arbitrary: acc) auto

lemma tensorise_entry_total:
  assumes "token_to_id vocab get_unk = Some unk_id"
  shows "tensorise_entry vocab token_seq i = Inr (projr (tensorise_entry vocab token_seq i))"
  by (simp add: tensorise_entry_def get_id_or_unk_total[OF assms])

lemma tensorise_total:
  assumes "token_to_id vocab get_unk = Some unk_id"
  shows "tensorise_token_sequence vocab len token_seq =
           Inr (map (\<lambda>i. projr (tensorise_entry vocab token_seq i)) [0..<nat len])"
  unfolding tensorise_token_sequence_def
  using tensorise_loop_all_ok[of "[0..<nat len]" vocab token_seq
      "\<lambda>i. projr (tensorise_entry vocab token_seq i)" "[]"]
    tensorise_entry_total[OF assms]
  by simp

lemma reserved_strings_distinct:
  "get_unk \<noteq> END_SYMBOL" "START_SYMBOL \<noteq> END_SYMBOL" "get_pad \<noteq> END_SYMBOL"
  by (simp_all add: get_unk_def get_pad_def START_SYMBOL_def END_SYMBOL_def)

lemma reserved_vocab_ids:
  "token_to_id reserved_vocab get_unk = Some 0"
  "token_to_id reserved_vocab get_pad = Some 1"
  "token_to_id reserved_vocab START_SYMBOL = Some 2"
  "token_to_id reserved_vocab END_SYMBOL = Some 3"
  by (simp_all add: reserved_vocab_def new_Vocabulary_def add_or_get_id_def get_unk_def
      get_pad_def START_SYMBOL_def END_SYMBOL_def Let_def)

text \<open>
  Claim C2. For a vocabulary that contains the four reserved symbols and a token sequence
  with \<open>len(seq) < L - 1\<close>, the tensoriser returns a list of exactly \<open>L\<close> ids:
  position 0 holds the id of the start symbol, position \<open>i + 1\<close> the vocabulary id of
  \<open>seq[i]\<close> (the unknown id when the token is not in the vocabulary) for every
  \<open>i < len(seq)\<close>, position \<open>len(seq) + 1\<close> the id of the end symbol, and every
  position from \<open>len(seq) + 2\<close> to \<open>L - 1\<close> the pad id.
\<close>

theorem tensorise_short_sequence_layout:
  assumes "{get_unk, get_pad, START_SYMBOL, END_SYMBOL} \<subseteq> dom (token_to_id vocab)"
    and "int (length token_seq) < len - 1"
  shows "\<exists>out unk_id.
           tensorise_token_sequence vocab len token_seq = Inr out
         \<and> length out = nat len
         \<and> token_to_id vocab get_unk = Some unk_id
         \<and> token_to_id vocab START_SYMBOL = Some (out ! 0)
         \<and> (\<forall>i<length token_seq.
               out ! (i + 1) =
                 (case token_to_id vocab (token_seq ! i) of Some this_id \<Rightarrow> this_id | None \<Rightarrow> unk_id))
         \<and> token_to_id vocab END_SYMBOL = Some (out ! (length token_seq + 1))
         \<and> (\<forall>j. length token_seq + 2 \<le> j \<and> j < nat len \<longrightarrow> token_to_id vocab get_pad = Some (out ! j))"
proof -
  from assms(1) obtain unk_id pad_id start_id end_id where
    ids: "token_to_id vocab get_unk = Some unk_id" "token_to_id vocab get_pad = Some pad_id"
      "token_to_id vocab START_SYMBOL = Some start_id" "token_to_id vocab END_SYMBOL = Some end_id"
    by auto
  define out where "out = map (\<lambda>i. projr (tensorise_entry vocab token_seq i)) [0..<nat len]"
  have r: "tensorise_token_sequence vocab len token_seq = Inr out"
    unfolding out_def by (rule tensorise_total[OF ids(1)])
  have l: "length out = nat len" by (simp add: out_def)
  have n: "length token_seq + 1 < nat len" using assms(2) by linarith
  have p0: "token_to_id vocab START_SYMBOL = Some (out ! 0)"
    using n ids by (simp add: out_def tensorise_entry_def get_id_or_unk_total[OF ids(1)])
  have pt: "\<forall>i<length token_seq. out ! (i + 1) =
      (case token_to_id vocab (token_seq ! i) of Some this_id \<Rightarrow> this_id | None \<Rightarrow> unk_id)"
    using n by (simp add: out_def tensorise_entry_def get_id_or_unk_total[OF ids(1)])
  have pe: "token_to_id vocab END_SYMBOL = Some (out ! (length token_seq + 1))"
    using n ids by (simp add: out_def tensorise_entry_def get_id_or_unk_total[OF ids(1)])
  have pp: "\<forall>j. length token_seq + 2 \<le> j \<and> j < nat len \<longrightarrow> token_to_id vocab get_pad = Some (out ! j)"
    using ids by (simp add: out_def tensorise_entry_def get_id_or_unk_total[OF ids(1)])
  from r l ids(1) p0 pt pe pp show ?thesis by blast
qed

theorem tensorise_short_sequence_layout_witness:
  "{get_unk, get_pad, START_SYMBOL, END_SYMBOL} \<subseteq> dom (token_to_id reserved_vocab)
   \<and> int (length [''public'', ''int'', ''foo'']) < 6 - 1
   \<and> tensorise_token_sequence reserved_vocab 6 [''public'', ''int'', ''foo''] = Inr [2, 0, 0, 0, 3, 1]
   \<and> (\<exists>out. tensorise_token_sequence reserved_vocab 6 [''public'', ''int'', ''foo''] = Inr out
         \<and> length out = nat 6
         \<and> token_to_id reserved_vocab START_SYMBOL = Some (out ! 0)
         \<and> token_to_id reserved_vocab END_SYMBOL = Some (out ! (length [''public'', ''int'', ''foo''] + 1)))"
proof -
  have h1: "{get_unk, get_pad, START_SYMBOL, END_SYMBOL} \<subseteq> dom (token_to_id reserved_vocab)"
    by (simp add: reserved_vocab_ids dom_def)
  have h2: "int (length [''public'', ''int'', ''foo'']) < 6 - 1" by simp
  have v: "tensorise_token_sequence reserved_vocab 6 [''public'', ''int'', ''foo''] = Inr [2, 0, 0, 0, 3, 1]"
    by code_simp
  from tensorise_short_sequence_layout[OF h1 h2] h1 h2 v show ?thesis by auto
qed

text \<open>
  Claim C3, as the code has it. For a vocabulary that contains the four reserved symbols,
  \<open>L \<ge> 2\<close> and \<open>len(seq) \<ge> L - 1\<close>, the tensoriser returns \<open>L\<close> ids: position 0
  holds the id of the start symbol and position \<open>i + 1\<close> the vocabulary id (unknown id on
  a miss) of \<open>seq[i]\<close> for \<open>i \<le> L - 2\<close>; the tokens from index \<open>L - 1\<close> on are
  dropped (the result is that of the first \<open>L - 1\<close> tokens alone); and no end marker is
  appended: when distinct tokens of the vocabulary have distinct ids and none of the kept
  tokens \<open>seq[0..L-2]\<close> is the end symbol itself, the id of the end symbol is nowhere in
  the output.
\<close>

theorem tensorise_long_sequence_layout:
  assumes "{get_unk, get_pad, START_SYMBOL, END_SYMBOL} \<subseteq> dom (token_to_id vocab)"
    and "2 \<le> len"
    and "len - 1 \<le> int (length token_seq)"
  shows "\<exists>out unk_id.
           tensorise_token_sequence vocab len token_seq = Inr out
         \<and> length out = nat len
         \<and> token_to_id vocab get_unk = Some unk_id
         \<and> token_to_id vocab START_SYMBOL = Some (out ! 0)
         \<and> (\<forall>i<nat len - 1.
               out ! (i + 1) =
                 (case token_to_id vocab (token_seq ! i) of Some this_id \<Rightarrow> this_id | None \<Rightarrow> unk_id))
         \<and> tensorise_token_sequence vocab len (take (nat len - 1) token_seq) = Inr out
         \<and> (inj_on (token_to_id vocab) (dom (token_to_id vocab))
              \<and> END_SYMBOL \<notin> set (take (nat len - 1) token_seq)
              \<longrightarrow> token_to_id vocab END_SYMBOL \<notin> Some ` set out)"
proof -
  from assms(1) obtain unk_id start_id end_id where
    ids: "token_to_id vocab get_unk = Some unk_id"
      "token_to_id vocab START_SYMBOL = Some start_id" "token_to_id vocab END_SYMBOL = Some end_id"
    by auto
  let ?f = "\<lambda>s i. projr (tensorise_entry vocab s i)"
  define out where "out = map (?f token_seq) [0..<nat len]"
  have n: "nat len - 1 \<le> length token_seq" "0 < nat len" using assms(2,3) by linarith+
  have r: "tensorise_token_sequence vocab len token_seq = Inr out"
    unfolding out_def by (rule tensorise_total[OF ids(1)])
  have l: "length out = nat len" by (simp add: out_def)
  have val: "?f token_seq i =
      (if i = 0 then start_id
       else case token_to_id vocab (token_seq ! (i - 1)) of Some this_id \<Rightarrow> this_id | None \<Rightarrow> unk_id)"
    if "i < nat len" for i
  proof -
    from that n have "i \<le> length token_seq" by linarith
    then show ?thesis
      using ids by (simp add: tensorise_entry_def get_id_or_unk_total[OF ids(1)])
  qed
  have p0: "token_to_id vocab START_SYMBOL = Some (out ! 0)"
    using n ids val[of 0] by (simp add: out_def)
  have pt: "\<forall>i<nat len - 1. out ! (i + 1) =
      (case token_to_id vocab (token_seq ! i) of Some this_id \<Rightarrow> this_id | None \<Rightarrow> unk_id)"
  proof (intro allI impI)
    fix i assume i: "i < nat len - 1"
    then have "i + 1 < nat len" by simp
    from val[OF this] this show "out ! (i + 1) =
      (case token_to_id vocab (token_seq ! i) of Some this_id \<Rightarrow> this_id | None \<Rightarrow> unk_id)"
      by (simp add: out_def)
  qed
  have same: "?f (take (nat len - 1) token_seq) i = ?f token_seq i" if "i < nat len" for i
  proof -
    from that n have "i \<le> length token_seq" "i \<le> nat len - 1" by linarith+
    then show ?thesis
      using n by (simp add: tensorise_entry_def min_def)
  qed
  have rt: "tensorise_token_sequence vocab len (take (nat len - 1) token_seq) = Inr out"
    unfolding tensorise_total[OF ids(1)] out_def using same by simp
  have noend: "token_to_id vocab END_SYMBOL \<notin> Some ` set out"
    if inj: "inj_on (token_to_id vocab) (dom (token_to_id vocab))"
      and ne: "END_SYMBOL \<notin> set (take (nat len - 1) token_seq)"
  proof
    assume "token_to_id vocab END_SYMBOL \<in> Some ` set out"
    then obtain i where i: "i < nat len" "?f token_seq i = end_id"
      using ids(3) by (auto simp: out_def)
    have diff: "t \<noteq> END_SYMBOL \<Longrightarrow> token_to_id vocab t = Some k \<Longrightarrow> k \<noteq> end_id" for t k
      using inj ids(3) by (auto simp: inj_on_def dom_def)
    show False
    proof (cases "i = 0")
      case True
      with val[OF i(1)] i(2) diff[OF reserved_strings_distinct(2) ids(2)] show False by simp
    next
      case False
      with i(1) n have "i - 1 < nat len - 1" "i - 1 < length token_seq" by linarith+
      then have "token_seq ! (i - 1) \<in> set (take (nat len - 1) token_seq)"
        by (auto simp: in_set_conv_nth intro!: exI[of _ "i - 1"])
      with ne have t: "token_seq ! (i - 1) \<noteq> END_SYMBOL" by auto
      show False
      proof (cases "token_to_id vocab (token_seq ! (i - 1))")
        case None
        with val[OF i(1)] False i(2) diff[OF reserved_strings_distinct(1) ids(1)] show False by simp
      next
        case (Some k)
        with val[OF i(1)] False i(2) diff[OF t Some] show False by simp
      qed
    qed
  qed
  from r l ids(1) p0 pt rt noend show ?thesis
    by blast
qed

theorem tensorise_long_sequence_layout_witness:
  "{get_unk, get_pad, START_SYMBOL, END_SYMBOL} \<subseteq> dom (token_to_id reserved_vocab)
   \<and> (2::int) \<le> 3
   \<and> (3::int) - 1 \<le> int (length [''public'', ''int'', ''foo''])
   \<and> tensorise_token_sequence reserved_vocab 3 [''public'', ''int'', ''foo''] = Inr [2, 0, 0]
   \<and> (\<exists>out. tensorise_token_sequence reserved_vocab 3 [''public'', ''int'', ''foo''] = Inr out
         \<and> tensorise_token_sequence reserved_vocab 3 (take (nat 3 - 1) [''public'', ''int'', ''foo'']) = Inr out
         \<and> length out = nat 3 \<and> token_to_id reserved_vocab START_SYMBOL = Some (out ! 0))"
proof -
  have h1: "{get_unk, get_pad, START_SYMBOL, END_SYMBOL} \<subseteq> dom (token_to_id reserved_vocab)"
    by (simp add: reserved_vocab_ids dom_def)
  have h2: "(2::int) \<le> 3" by simp
  have h3: "(3::int) - 1 \<le> int (length [''public'', ''int'', ''foo''])" by simp
  have v: "tensorise_token_sequence reserved_vocab 3 [''public'', ''int'', ''foo''] = Inr [2, 0, 0]"
    by code_simp
  from tensorise_long_sequence_layout[OF h1 h2 h3] h1 h2 h3 v show ?thesis by auto
qed

text \<open>
  Claim C3 as stated (no end-symbol id anywhere in the output, for every token sequence)
  fails when a kept token is the string of the end symbol: with the vocabulary of the four
  reserved symbols, \<open>L = 2\<close> and the one-token sequence \<open>%END%\<close>, the output is the
  start id followed by the end id 3.
\<close>

theorem tensorise_end_id_counterexample:
  "{get_unk, get_pad, START_SYMBOL, END_SYMBOL} \<subseteq> dom (token_to_id reserved_vocab)
   \<and> int (length [END_SYMBOL]) \<ge> 2 - 1
   \<and> token_to_id reserved_vocab END_SYMBOL = Some 3
   \<and> tensorise_token_sequence reserved_vocab 2 [END_SYMBOL] = Inr [2, 3]"
proof -
  have "tensorise_token_sequence reserved_vocab 2 [END_SYMBOL] = Inr [2, 3]" by code_simp
  then show ?thesis by (simp add: reserved_vocab_ids dom_def)
qed

text \<open>
  Claim C8, as the code has it. The tensoriser has no check of its target length: for
  \<open>L < 2\<close> and a vocabulary that contains the start symbol it returns a list, the
  one-element list of the start id for \<open>L = 1\<close> and the empty list for \<open>L \<le> 0\<close>,
  whatever the token sequence.
\<close>

theorem tensorise_small_length_returns:
  assumes "len < 2" and "token_to_id vocab START_SYMBOL = Some start_id"
  shows "tensorise_token_sequence vocab len token_seq = Inr (if len = 1 then [start_id] else [])"
proof (cases "len = 1")
  case True
  then show ?thesis
    using assms(2) by (simp add: tensorise_token_sequence_def tensorise_entry_def get_id_or_unk_def)
next
  case False
  with assms(1) have "nat len = 0" by simp
  with False show ?thesis by (simp add: tensorise_token_sequence_def)
qed

theorem tensorise_small_length_returns_witness:
  "(1::int) < 2 \<and> token_to_id reserved_vocab START_SYMBOL = Some 2
   \<and> tensorise_token_sequence reserved_vocab 1 [''public'', ''int''] = Inr [2]"
  using tensorise_small_length_returns[of 1 reserved_vocab 2 "[''public'', ''int'']"]
  by (simp add: reserved_vocab_ids)

text \<open>
  Claim C8 as stated (a target length below 2 is rejected with \<open>ConfigurationError\<close>)
  fails: for the lengths 1, 0 and -1 the tensoriser returns a list.
\<close>

theorem tensorise_small_length_counterexample:
  "tensorise_token_sequence reserved_vocab 1 [''public'', ''int''] = Inr [2]
   \<and> tensorise_token_sequence reserved_vocab 0 [''public'', ''int''] = Inr []
   \<and> tensorise_token_sequence reserved_vocab (- 1) [''public'', ''int''] = Inr []"
  by code_simp


section \<open>The traversal of a method\<close>

subsection \<open>The loop\<close>

lemma follow_chain_step:
  "nid \<noteq> end_id \<Longrightarrow> nd nid = Some n \<Longrightarrow>
     follow_chain lower nd ed end_id nid tokens =
       follow_chain lower nd ed end_id (next_nid ed nid) (tokens @ [lower (contents n)])"
  by (subst follow_chain.simps) (simp add: chain_step_def)

lemma follow_chain_end: "follow_chain lower nd ed end_id end_id tokens = Some (Inr tokens)"
  by (subst follow_chain.simps) simp

lemma follow_chain_missing:
  "nid \<noteq> end_id \<Longrightarrow> nd nid = None \<Longrightarrow>
     follow_chain lower nd ed end_id nid tokens = Some (Inl (KeyError nid))"
  by (subst follow_chain.simps) (simp add: chain_step_def)

lemma follow_chain_Some_leaves:
  assumes "follow_chain lower nd' ed' e' nid toks = Some y"
    and "nd' = nd" and "ed' = ed" and "e' = end_id"
    and "\<forall>x\<in>C. x \<noteq> end_id \<and> x \<in> dom nd \<and> next_nid ed x \<in> C"
  shows "nid \<notin> C"
  using assms
proof (induction lower nd' ed' e' nid toks y rule: follow_chain.raw_induct[rotated 1, consumes 1])
  case (1 f lower nd' ed' e' nid toks y)
  show ?case
  proof
    assume c: "nid \<in> C"
    with 1 have ne: "nid \<noteq> e'" and d: "nid \<in> dom nd'" and nx: "next_nid ed' nid \<in> C"
      by auto
    from d obtain n where n: "nd' nid = Some n" by auto
    from 1(2) ne n have "f lower nd' ed' e' (next_nid ed' nid) (toks @ [lower (contents n)]) = Some y"
      by (simp add: chain_step_def)
    from 1(1)[OF this 1(3) 1(4) 1(5) 1(6)] nx show False by simp
  qed
qed

lemma follow_chain_invariant_diverges:
  assumes "\<forall>x\<in>C. x \<noteq> end_id \<and> x \<in> dom nd \<and> next_nid ed x \<in> C"
    and "nid \<in> C"
  shows "follow_chain lower nd ed end_id nid tokens = None"
proof (cases "follow_chain lower nd ed end_id nid tokens")
  case None then show ?thesis .
next
  case (Some y)
  from follow_chain_Some_leaves[OF Some refl refl refl assms(1)] assms(2) show ?thesis by simp
qed

lemma follow_chain_error_kind:
  assumes "follow_chain lower nd ed end_id nid toks = Some (Inl err)"
  shows "\<exists>x. err = KeyError x"
proof -
  have "y = Inl err \<longrightarrow> (\<exists>x. err = KeyError x)"
    if "follow_chain lower nd ed end_id nid toks = Some y" for y
    using that
  proof (induction lower nd ed end_id nid toks y rule: follow_chain.raw_induct[rotated 1, consumes 1])
    case (1 f lower nd ed e nid toks y)
    then show ?case
      by (auto simp: chain_step_def split: if_splits option.splits)
  qed
  with assms show ?thesis by blast
qed

lemma follow_chain_tokens_grow:
  assumes "follow_chain lower nd ed end_id nid toks = Some (Inr r)"
  shows "length toks \<le> length r \<and> (nid \<noteq> end_id \<longrightarrow> length toks < length r)"
proof -
  have "y = Inr r \<longrightarrow> length toks \<le> length r \<and> (nid \<noteq> end_id \<longrightarrow> length toks < length r)"
    if "follow_chain lower nd ed end_id nid toks = Some y" for y
    using that
  proof (induction lower nd ed end_id nid toks y rule: follow_chain.raw_induct[rotated 1, consumes 1])
    case (1 f lower nd ed e nid toks y)
    show ?case
    proof (cases "nid = e")
      case True
      with 1(2) show ?thesis by auto
    next
      case False
      show ?thesis
      proof (cases "nd nid")
        case None
        with False 1(2) show ?thesis by (auto simp: chain_step_def)
      next
        case (Some n)
        with False 1(2) have "f lower nd ed e (next_nid ed nid) (toks @ [lower (contents n)]) = Some y"
          by (simp add: chain_step_def)
        from 1(1)[OF this] show ?thesis by auto
      qed
    qed
  qed
  with assms show ?thesis by blast
qed

lemma follow_chain_reaches:
  assumes "(next_nid ed ^^ k) nid = end_id"
    and "\<forall>j<k. (next_nid ed ^^ j) nid \<in> dom nd"
  shows "\<exists>r. follow_chain lower nd ed end_id nid tokens = Some (Inr r)"
  using assms
proof (induction k arbitrary: nid tokens)
  case 0
  then show ?case by (simp add: follow_chain_end)
next
  case (Suc k)
  show ?case
  proof (cases "nid = end_id")
    case True
    then show ?thesis by (simp add: follow_chain_end)
  next
    case False
    from Suc.prems(2) have "(next_nid ed ^^ 0) nid \<in> dom nd" by blast
    then obtain n where n: "nd nid = Some n" by auto
    have r: "(next_nid ed ^^ k) (next_nid ed nid) = end_id"
      using Suc.prems(1) by (simp add: funpow_swap1)
    have d: "\<forall>j<k. (next_nid ed ^^ j) (next_nid ed nid) \<in> dom nd"
    proof (intro allI impI)
      fix j assume "j < k"
      then have "Suc j < Suc k" by simp
      with Suc.prems(2) have "(next_nid ed ^^ Suc j) nid \<in> dom nd" by blast
      then show "(next_nid ed ^^ j) (next_nid ed nid) \<in> dom nd" by (simp add: funpow_swap1)
    qed
    from Suc.IH[OF r d, of "tokens @ [lower (contents n)]"]
      follow_chain_step[where nid = nid and end_id = end_id and nd = nd and n = n and ed = ed
        and tokens = tokens and lower = lower] False n
    show ?thesis by simp
  qed
qed

lemma follow_chain_never_reaches:
  assumes "\<forall>k. (next_nid ed ^^ k) nid \<noteq> end_id"
    and "\<forall>k. (next_nid ed ^^ k) nid \<in> dom nd"
  shows "follow_chain lower nd ed end_id nid tokens = None"
proof (rule follow_chain_invariant_diverges[where C = "range (\<lambda>k. (next_nid ed ^^ k) nid)"])
  show "\<forall>x\<in>range (\<lambda>k. (next_nid ed ^^ k) nid).
      x \<noteq> end_id \<and> x \<in> dom nd \<and> next_nid ed x \<in> range (\<lambda>k. (next_nid ed ^^ k) nid)"
  proof
    fix x assume "x \<in> range (\<lambda>k. (next_nid ed ^^ k) nid)"
    then obtain k where k: "x = (next_nid ed ^^ k) nid" by auto
    have "next_nid ed x = (next_nid ed ^^ Suc k) nid" using k by simp
    then have "next_nid ed x \<in> range (\<lambda>k. (next_nid ed ^^ k) nid)" by blast
    with k assms show "x \<noteq> end_id \<and> x \<in> dom nd \<and> next_nid ed x \<in> range (\<lambda>k. (next_nid ed ^^ k) nid)"
      by simp
  qed
  show "nid \<in> range (\<lambda>k. (next_nid ed ^^ k) nid)"
    by (rule range_eqI[of _ _ 0]) simp
qed

lemma cycle_never_reaches:
  assumes "0 < k" and "(f ^^ k) s = s" and "\<forall>j<k. (f ^^ j) s \<noteq> (e::int)"
  shows "(f ^^ i) s \<noteq> e"
proof (induction i rule: less_induct)
  case (less i)
  show ?case
  proof (cases "i < k")
    case True
    with assms(3) show ?thesis by simp
  next
    case False
    then have i: "i = (i - k) + k" by simp
    have "(f ^^ i) s = (f ^^ (i - k)) ((f ^^ k) s)"
      by (subst i) (simp only: funpow_add o_apply)
    also have "\<dots> = (f ^^ (i - k)) s" using assms(2) by simp
    finally show ?thesis using less[of "i - k"] False assms(1) by simp
  qed
qed


subsection \<open>The node index\<close>

lemma build_index_snoc: "build_index (ns @ [n]) = index_node (build_index ns) n"
  by (simp add: build_index_def)

lemma methods_build_index:
  "methods (build_index ns) = filter (\<lambda>n. contents n = ''METHOD'') ns"
proof (induction ns rule: rev_induct)
  case Nil
  show ?case by (simp add: build_index_def empty_index_def)
next
  case (snoc n ns)
  then show ?case by (simp add: build_index_snoc index_node_def Let_def)
qed

lemma nodes_dict_build_index:
  "nodes_dict (build_index ns) x = Some n \<Longrightarrow> n \<in> set ns \<and> node_id n = x"
proof (induction ns rule: rev_induct)
  case Nil
  then show ?case by (simp add: build_index_def empty_index_def)
next
  case (snoc a ns)
  then show ?case
    by (auto simp add: build_index_snoc index_node_def Let_def split: if_splits)
qed

lemma dom_nodes_dict_build_index:
  "dom (nodes_dict (build_index ns)) = node_id ` set ns"
proof (induction ns rule: rev_induct)
  case Nil
  show ?case by (simp add: build_index_def empty_index_def)
next
  case (snoc a ns)
  then show ?case
    by (auto simp add: build_index_snoc index_node_def Let_def split: if_splits)
qed

lemma tokens_by_start_pos_build_index:
  "tokens_by_start_pos (build_index ns) p = Some n \<Longrightarrow> n \<in> set ns \<and> startPosition n = p"
proof (induction ns rule: rev_induct)
  case Nil
  then show ?case by (simp add: build_index_def empty_index_def)
next
  case (snoc a ns)
  then show ?case
    by (auto simp add: build_index_snoc index_node_def Let_def split: if_splits)
qed

lemma tokens_by_end_pos_build_index:
  "tokens_by_end_pos (build_index ns) p = Some n \<Longrightarrow> n \<in> set ns \<and> endPosition n = p"
proof (induction ns rule: rev_induct)
  case Nil
  then show ?case by (simp add: build_index_def empty_index_def)
next
  case (snoc a ns)
  then show ?case
    by (auto simp add: build_index_snoc index_node_def Let_def split: if_splits)
qed

lemma tokens_by_start_pos_None:
  "tokens_by_start_pos (build_index ns) p = None \<longleftrightarrow>
     \<not> (\<exists>n\<in>set ns. (node_type n = TOKEN \<or> node_type n = IDENTIFIER_TOKEN) \<and> startPosition n = p)"
proof (induction ns rule: rev_induct)
  case Nil
  show ?case by (simp add: build_index_def empty_index_def)
next
  case (snoc a ns)
  then show ?case
    by (auto simp add: build_index_snoc index_node_def Let_def split: if_splits)
qed

lemma tokens_by_end_pos_None:
  "tokens_by_end_pos (build_index ns) p = None \<longleftrightarrow>
     \<not> (\<exists>n\<in>set ns. (node_type n = TOKEN \<or> node_type n = IDENTIFIER_TOKEN) \<and> endPosition n = p)"
proof (induction ns rule: rev_induct)
  case Nil
  show ?case by (simp add: build_index_def empty_index_def)
next
  case (snoc a ns)
  then show ?case
    by (auto simp add: build_index_snoc index_node_def Let_def split: if_splits)
qed

subsection \<open>Chains inside the graph\<close>

lemma next_nid_in_nodes:
  assumes "edges_lead_to_nodes g" and "x \<in> node_id ` set (node g)"
  shows "next_nid (build_edges_dict (edge g)) x \<in> node_id ` set (node g)"
proof (cases "filter (\<lambda>e. sourceId e = x \<and> edge_type e = NEXT_TOKEN) (edge g) = []")
  case True
  with assms(2) show ?thesis by (simp add: next_nid_graph)
next
  case False
  then have "last (filter (\<lambda>e. sourceId e = x \<and> edge_type e = NEXT_TOKEN) (edge g))
      \<in> set (filter (\<lambda>e. sourceId e = x \<and> edge_type e = NEXT_TOKEN) (edge g))"
    by (rule last_in_set)
  then have "destinationId (last (filter (\<lambda>e. sourceId e = x \<and> edge_type e = NEXT_TOKEN) (edge g)))
      \<in> node_id ` set (node g)"
    using assms(1) by (auto simp: edges_lead_to_nodes_def)
  with False show ?thesis by (simp add: next_nid_graph)
qed

lemma chain_in_nodes:
  assumes "edges_lead_to_nodes g" and "x \<in> node_id ` set (node g)"
  shows "(next_nid (build_edges_dict (edge g)) ^^ k) x \<in> dom (nodes_dict (build_index (node g)))"
proof (induction k)
  case 0
  with assms(2) show ?case by (simp add: dom_nodes_dict_build_index)
next
  case (Suc k)
  then show ?case
    using next_nid_in_nodes[OF assms(1)] by (simp add: dom_nodes_dict_build_index)
qed

lemma chain_returns_iff_reaches:
  assumes "edges_lead_to_nodes g" and "x \<in> node_id ` set (node g)"
  shows "(\<exists>r. follow_chain lower (nodes_dict (build_index (node g))) (build_edges_dict (edge g)) end_id x tokens
              = Some (Inr r))
         \<longleftrightarrow> (\<exists>k. (next_nid (build_edges_dict (edge g)) ^^ k) x = end_id)"
    and "follow_chain lower (nodes_dict (build_index (node g))) (build_edges_dict (edge g)) end_id x tokens = None
         \<longleftrightarrow> \<not> (\<exists>k. (next_nid (build_edges_dict (edge g)) ^^ k) x = end_id)"
proof -
  let ?nd = "nodes_dict (build_index (node g))" and ?ed = "build_edges_dict (edge g)"
  have dom: "\<forall>k. (next_nid ?ed ^^ k) x \<in> dom ?nd"
    using chain_in_nodes[OF assms] by blast
  have a: "\<exists>r. follow_chain lower ?nd ?ed end_id x tokens = Some (Inr r)"
    if "\<exists>k. (next_nid ?ed ^^ k) x = end_id"
  proof -
    from that obtain k where "(next_nid ?ed ^^ k) x = end_id" by blast
    from follow_chain_reaches[OF this, where nd = ?nd and tokens = tokens and lower = lower] dom show ?thesis by blast
  qed
  have b: "follow_chain lower ?nd ?ed end_id x tokens = None"
    if "\<not> (\<exists>k. (next_nid ?ed ^^ k) x = end_id)"
    using that dom by (intro follow_chain_never_reaches) auto
  show "(\<exists>r. follow_chain lower ?nd ?ed end_id x tokens = Some (Inr r))
         \<longleftrightarrow> (\<exists>k. (next_nid ?ed ^^ k) x = end_id)"
    using a b by fastforce
  show "follow_chain lower ?nd ?ed end_id x tokens = None
         \<longleftrightarrow> \<not> (\<exists>k. (next_nid ?ed ^^ k) x = end_id)"
    using a b by fastforce
qed

subsection \<open>The generator\<close>

lemma returns_normally_iff: "returns_normally r \<longleftrightarrow> (\<exists>tokens. r = Some (Inr tokens))"
  by (auto simp: returns_normally_def split: option.splits sum.splits)

lemma returned_prefix_append:
  "list_all returns_normally rs \<Longrightarrow> returned_prefix (rs @ rs') = returned_prefix rs @ returned_prefix rs'"
  by (induction rs) (auto simp: returns_normally_iff)

lemma run_methods_yields:
  "fst (run_methods lower ix ed ms) =
     filter (\<lambda>tokens. tokens \<noteq> []) (returned_prefix (map (method_tokens lower ix ed) ms))"
  by (induction ms) (auto split: option.splits sum.splits prod.splits)

lemma run_methods_finished:
  "snd (run_methods lower ix ed ms) = Finished \<longleftrightarrow> list_all (\<lambda>m. returns_normally (method_tokens lower ix ed m)) ms"
proof (induction ms)
  case Nil
  show ?case by simp
next
  case (Cons m ms)
  obtain ys out where r: "run_methods lower ix ed ms = (ys, out)" by (cases "run_methods lower ix ed ms")
  show ?case
  proof (cases "method_tokens lower ix ed m")
    case None
    then show ?thesis by (simp add: returns_normally_def)
  next
    case (Some y)
    then show ?thesis
      using Cons r by (cases y) (simp_all add: returns_normally_def)
  qed
qed

lemma run_methods_stops:
  assumes "list_all (\<lambda>m. returns_normally (method_tokens lower ix ed m)) before"
    and "\<not> returns_normally (method_tokens lower ix ed m)"
  shows "snd (run_methods lower ix ed (before @ m # after)) =
           (case method_tokens lower ix ed m of None \<Rightarrow> Hangs | Some (Inl err) \<Rightarrow> Raised err | Some (Inr t) \<Rightarrow> Finished)"
    and "fst (run_methods lower ix ed (before @ m # after)) =
           filter (\<lambda>tokens. tokens \<noteq> []) (returned_prefix (map (method_tokens lower ix ed) before))"
proof -
  show "snd (run_methods lower ix ed (before @ m # after)) =
           (case method_tokens lower ix ed m of None \<Rightarrow> Hangs | Some (Inl err) \<Rightarrow> Raised err | Some (Inr t) \<Rightarrow> Finished)"
    using assms
    by (induction before) (auto simp: returns_normally_def split: option.splits sum.splits prod.splits)
  have "returned_prefix (map (method_tokens lower ix ed) (before @ m # after)) =
      returned_prefix (map (method_tokens lower ix ed) before)"
    using assms
    by (induction before) (auto simp: returns_normally_def split: option.splits sum.splits)
  then show "fst (run_methods lower ix ed (before @ m # after)) =
           filter (\<lambda>tokens. tokens \<noteq> []) (returned_prefix (map (method_tokens lower ix ed) before))"
    by (simp add: run_methods_yields)
qed


text \<open>The only exception that leaves the generator is a \<open>KeyError\<close> of a lookup.\<close>

lemma method_tokens_error_kind:
  assumes "method_tokens lower ix ed m = Some (Inl err)"
  shows "\<exists>x. err = KeyError x"
  using assms follow_chain_error_kind
  by (auto simp: method_tokens_def split: option.splits)

lemma run_methods_error_kind:
  "snd (run_methods lower ix ed ms) = Raised err \<Longrightarrow> \<exists>x. err = KeyError x"
proof (induction ms)
  case Nil
  then show ?case by simp
next
  case (Cons m ms)
  obtain ys out where r: "run_methods lower ix ed ms = (ys, out)" by (cases "run_methods lower ix ed ms")
  show ?case
  proof (cases "method_tokens lower ix ed m")
    case None
    with Cons.prems show ?thesis by simp
  next
    case (Some y)
    show ?thesis
    proof (cases y)
      case (Inl e)
      with Some Cons.prems method_tokens_error_kind[of lower ix ed m e] show ?thesis by simp
    next
      case (Inr t)
      with Some Cons r show ?thesis by simp
    qed
  qed
qed

lemma load_data_file_error_kind:
  "snd (load_data_file lower g) = Raised err \<Longrightarrow> \<exists>x. err = KeyError x"
  by (simp add: load_data_file_def Let_def run_methods_error_kind)

lemma load_data_file_stops:
  assumes "methods (index_of g) = before @ m # after"
    and "list_all (\<lambda>m'. returns_normally (method_tokens lower (index_of g) (edges_of g) m')) before"
    and "\<not> returns_normally (method_tokens lower (index_of g) (edges_of g) m)"
  shows "load_data_file lower g =
           (filter (\<lambda>tokens. tokens \<noteq> [])
              (returned_prefix (map (method_tokens lower (index_of g) (edges_of g)) before)),
            case method_tokens lower (index_of g) (edges_of g) m of
              None \<Rightarrow> Hangs | Some (Inl err) \<Rightarrow> Raised err | Some (Inr t) \<Rightarrow> Finished)"
  using run_methods_stops[OF assms(2,3), of after] assms(1)
  by (simp add: load_data_file_def Let_def prod_eq_iff)

text \<open>
  Claim C4, as the code has it. \<open>load_data_file\<close> has no cycle detection. In a graph
  whose \<open>NEXT_TOKEN\<close> edges lead to nodes of the graph, when the chain followed from the
  start node of a method comes back to the start node (after \<open>k > 0\<close> steps) without
  having reached the end node, the traversal of that method never terminates and raises
  nothing; the generator, once the methods before it have returned, hangs after their
  non-empty token lists.
\<close>

theorem cycle_never_terminates:
  assumes "edges_lead_to_nodes g"
    and "methods (index_of g) = before @ m # after"
    and "list_all (\<lambda>m'. returns_normally (method_tokens lower (index_of g) (edges_of g) m')) before"
    and "tokens_by_start_pos (index_of g) (startPosition m) = Some s"
    and "tokens_by_end_pos (index_of g) (endPosition m) = Some e"
    and "0 < k"
    and "(next_nid (edges_of g) ^^ k) (node_id s) = node_id s"
    and "\<forall>j<k. (next_nid (edges_of g) ^^ j) (node_id s) \<noteq> node_id e"
  shows "method_tokens lower (index_of g) (edges_of g) m = None
       \<and> load_data_file lower g =
           (filter (\<lambda>tokens. tokens \<noteq> [])
              (returned_prefix (map (method_tokens lower (index_of g) (edges_of g)) before)), Hangs)"
proof -
  from tokens_by_start_pos_build_index[OF assms(4)]
  have s: "node_id s \<in> node_id ` set (node g)" by blast
  have never: "\<not> (\<exists>i. (next_nid (edges_of g) ^^ i) (node_id s) = node_id e)"
    using cycle_never_reaches[OF assms(6,7,8)] by blast
  have "follow_chain lower (nodes_dict (index_of g)) (edges_of g) (node_id e) (node_id s) [] = None"
    using chain_returns_iff_reaches(2)[OF assms(1) s] never by blast
  then have none: "method_tokens lower (index_of g) (edges_of g) m = None"
    using assms(4,5) by (simp add: method_tokens_def)
  then have "\<not> returns_normally (method_tokens lower (index_of g) (edges_of g) m)"
    by (simp add: returns_normally_def)
  from load_data_file_stops[OF assms(2,3) this] none show ?thesis by simp
qed

lemma cycle_graph_next:
  "next_nid (edges_of cycle_graph) 1 = 2" "next_nid (edges_of cycle_graph) 2 = 1"
  by (simp_all add: next_nid_graph cycle_graph_def next_edge_def)

lemma cycle_graph_index:
  "methods (index_of cycle_graph) = [method_node 0 0 9]"
  "tokens_by_start_pos (index_of cycle_graph) 0 = Some (token_node 1 ''A'' 0 1)"
  "tokens_by_end_pos (index_of cycle_graph) 9 = Some (token_node 4 ''}'' 8 9)"
  by (simp_all add: cycle_graph_def build_index_def index_node_def empty_index_def
      method_node_def token_node_def)

theorem cycle_never_terminates_witness:
  "edges_lead_to_nodes cycle_graph
   \<and> methods (index_of cycle_graph) = [] @ method_node 0 0 9 # []
   \<and> tokens_by_start_pos (index_of cycle_graph) (startPosition (method_node 0 0 9)) = Some (token_node 1 ''A'' 0 1)
   \<and> tokens_by_end_pos (index_of cycle_graph) (endPosition (method_node 0 0 9)) = Some (token_node 4 ''}'' 8 9)
   \<and> (next_nid (edges_of cycle_graph) ^^ 2) (node_id (token_node 1 ''A'' 0 1)) = node_id (token_node 1 ''A'' 0 1)
   \<and> (next_nid (edges_of cycle_graph) ^^ 0) (node_id (token_node 1 ''A'' 0 1)) \<noteq> node_id (token_node 4 ''}'' 8 9)
   \<and> (next_nid (edges_of cycle_graph) ^^ 1) (node_id (token_node 1 ''A'' 0 1)) \<noteq> node_id (token_node 4 ''}'' 8 9)
   \<and> method_tokens ascii_lower (index_of cycle_graph) (edges_of cycle_graph) (method_node 0 0 9) = None
   \<and> load_data_file ascii_lower cycle_graph = ([], Hangs)"
proof -
  have h1: "edges_lead_to_nodes cycle_graph"
    by (simp add: edges_lead_to_nodes_def cycle_graph_def next_edge_def token_node_def method_node_def)
  have h2: "methods (index_of cycle_graph) = [] @ method_node 0 0 9 # []"
    by (simp add: cycle_graph_index)
  have h3: "list_all (\<lambda>m'. returns_normally (method_tokens ascii_lower (index_of cycle_graph) (edges_of cycle_graph) m')) []"
    by simp
  have h4: "tokens_by_start_pos (index_of cycle_graph) (startPosition (method_node 0 0 9)) = Some (token_node 1 ''A'' 0 1)"
    by (simp add: cycle_graph_index method_node_def)
  have h5: "tokens_by_end_pos (index_of cycle_graph) (endPosition (method_node 0 0 9)) = Some (token_node 4 ''}'' 8 9)"
    by (simp add: cycle_graph_index method_node_def)
  have h6: "(0::nat) < 2" by simp
  have h7: "(next_nid (edges_of cycle_graph) ^^ 2) (node_id (token_node 1 ''A'' 0 1)) = node_id (token_node 1 ''A'' 0 1)"
    by (simp add: numeral_2_eq_2 cycle_graph_next token_node_def)
  have a0: "(next_nid (edges_of cycle_graph) ^^ 0) (node_id (token_node 1 ''A'' 0 1)) \<noteq> node_id (token_node 4 ''}'' 8 9)"
    by (simp add: token_node_def)
  have a1: "(next_nid (edges_of cycle_graph) ^^ 1) (node_id (token_node 1 ''A'' 0 1)) \<noteq> node_id (token_node 4 ''}'' 8 9)"
    by (simp add: cycle_graph_next token_node_def)
  have h8: "\<forall>j<2. (next_nid (edges_of cycle_graph) ^^ j) (node_id (token_node 1 ''A'' 0 1)) \<noteq> node_id (token_node 4 ''}'' 8 9)"
  proof (intro allI impI)
    fix j :: nat assume "j < 2"
    then have "j = 0 \<or> j = 1" by linarith
    with a0 a1 show "(next_nid (edges_of cycle_graph) ^^ j) (node_id (token_node 1 ''A'' 0 1)) \<noteq> node_id (token_node 4 ''}'' 8 9)"
      by blast
  qed
  from cycle_never_terminates[OF h1 h2 h3 h4 h5 h6 h7 h8] h1 h2 h4 h5 h7 a0 a1
  show ?thesis by simp
qed

text \<open>
  Claim C4 as stated (the cycle is detected and \<open>TraversalCycleError\<close> is raised) fails:
  in \<open>cycle_graph\<close> the chain from the start token 1 goes to 2 and back to 1, the end
  token is 4, and the generator hangs without raising.
\<close>

theorem cycle_not_detected_counterexample:
  "next_nid (edges_of cycle_graph) 1 = 2
   \<and> next_nid (edges_of cycle_graph) 2 = 1
   \<and> tokens_by_start_pos (index_of cycle_graph) 0 = Some (token_node 1 ''A'' 0 1)
   \<and> tokens_by_end_pos (index_of cycle_graph) 9 = Some (token_node 4 ''}'' 8 9)
   \<and> load_data_file ascii_lower cycle_graph = ([], Hangs)
   \<and> snd (load_data_file ascii_lower cycle_graph) \<noteq> Raised TraversalCycleError"
proof -
  have inv: "\<forall>x\<in>{1, 2}. x \<noteq> 4 \<and> x \<in> dom (nodes_dict (index_of cycle_graph))
      \<and> next_nid (edges_of cycle_graph) x \<in> {1, 2}"
    by (simp add: cycle_graph_next dom_nodes_dict_build_index)
      (simp add: cycle_graph_def token_node_def method_node_def)
  have "follow_chain ascii_lower (nodes_dict (index_of cycle_graph)) (edges_of cycle_graph) 4 1 [] = None"
    by (rule follow_chain_invariant_diverges[OF inv]) simp
  then have "method_tokens ascii_lower (index_of cycle_graph) (edges_of cycle_graph) (method_node 0 0 9) = None"
    by (simp add: method_tokens_def cycle_graph_index method_node_def token_node_def)
  then have "load_data_file ascii_lower cycle_graph = ([], Hangs)"
    by (simp add: load_data_file_def Let_def cycle_graph_index)
  then show ?thesis by (simp add: cycle_graph_next cycle_graph_index)
qed


lemma stuck_graph_facts:
  "nodes_dict (index_of stuck_graph) 2 = Some (token_node 2 ''b'' 2 3)"
  "filter (\<lambda>e. sourceId e = 2 \<and> edge_type e = NEXT_TOKEN) (edge stuck_graph) = []"
  by (simp_all add: stuck_graph_def build_index_def index_node_def empty_index_def
      method_node_def token_node_def next_edge_def other_edge_def)

lemma fork_graph_facts:
  "edges_lead_to_nodes fork_graph"
  "tokens_by_start_pos (index_of fork_graph) 0 =
     Some \<lparr>node_id = 1, node_type = TOKEN, contents = ''A'', startPosition = 0, endPosition = 1\<rparr>"
  "tokens_by_end_pos (index_of fork_graph) 9 =
     Some \<lparr>node_id = 4, node_type = TOKEN, contents = ''}'', startPosition = 8, endPosition = 9\<rparr>"
  "next_nid (edges_of fork_graph) 1 = 3"
  "next_nid (edges_of fork_graph) 3 = 4"
  by (simp_all add: edges_lead_to_nodes_def fork_graph_def build_index_def index_node_def
      empty_index_def next_nid_graph)

subsection \<open>Chains and paths of the graph\<close>

lemma last_edge_is_next_nid:
  "last_next_token_edge g a b \<Longrightarrow> next_nid (edges_of g) a = b"
  by (simp add: last_next_token_edge_def next_nid_graph)

lemma next_nid_stays_or_last_edge:
  "next_nid (edges_of g) a = a \<or> last_next_token_edge g a (next_nid (edges_of g) a)"
  by (simp add: last_next_token_edge_def next_nid_graph)

lemma chain_imp_last_edge_path:
  "(next_nid (edges_of g) ^^ k) x = y \<Longrightarrow> rtranclp (last_next_token_edge g) x y"
proof (induction k arbitrary: x)
  case 0
  then show ?case by simp
next
  case (Suc k)
  then have "(next_nid (edges_of g) ^^ k) (next_nid (edges_of g) x) = y"
    by (simp add: funpow_swap1)
  from Suc.IH[OF this] have r: "rtranclp (last_next_token_edge g) (next_nid (edges_of g) x) y" .
  from next_nid_stays_or_last_edge[of g x] show ?case
  proof
    assume "next_nid (edges_of g) x = x"
    with r show ?thesis by simp
  next
    assume "last_next_token_edge g x (next_nid (edges_of g) x)"
    then show ?thesis using r by (rule converse_rtranclp_into_rtranclp)
  qed
qed

lemma last_edge_path_imp_chain:
  "rtranclp (last_next_token_edge g) x y \<Longrightarrow> \<exists>k. (next_nid (edges_of g) ^^ k) x = y"
proof (induction rule: converse_rtranclp_induct)
  case base
  have "(next_nid (edges_of g) ^^ 0) y = y" by simp
  then show ?case by blast
next
  case (step x z)
  then obtain k where k: "(next_nid (edges_of g) ^^ k) z = y" by blast
  from last_edge_is_next_nid[OF step(1)] k
  have "(next_nid (edges_of g) ^^ Suc k) x = y" by (simp add: funpow_swap1)
  then show ?case by blast
qed

lemma chain_iff_last_edge_path:
  "(\<exists>k. (next_nid (edges_of g) ^^ k) x = y) \<longleftrightarrow> rtranclp (last_next_token_edge g) x y"
  using chain_imp_last_edge_path last_edge_path_imp_chain by blast

lemma unambiguous_last_edge:
  assumes "next_token_unambiguous g"
  shows "last_next_token_edge g = next_token_edge g"
proof (intro ext iffI)
  fix a b
  let ?es = "filter (\<lambda>e. sourceId e = a \<and> edge_type e = NEXT_TOKEN) (edge g)"
  {
    assume "last_next_token_edge g a b"
    then have ne: "?es \<noteq> []" and d: "destinationId (last ?es) = b"
      by (simp_all add: last_next_token_edge_def)
    from ne have "last ?es \<in> set ?es" by (rule last_in_set)
    with d show "next_token_edge g a b" by (auto simp: next_token_edge_def)
  }
  {
    assume "next_token_edge g a b"
    then obtain e where e: "e \<in> set (edge g)" "sourceId e = a" "edge_type e = NEXT_TOKEN"
        "destinationId e = b"
      by (auto simp: next_token_edge_def)
    then have "e \<in> set ?es" by simp
    then have ne: "?es \<noteq> []" by (metis empty_iff list.set(1))
    then have "last ?es \<in> set ?es" by (rule last_in_set)
    then have l: "last ?es \<in> set (edge g)" "sourceId (last ?es) = a" "edge_type (last ?es) = NEXT_TOKEN"
      by auto
    from assms e l have "destinationId (last ?es) = destinationId e"
      unfolding next_token_unambiguous_def by blast
    with ne e(4) show "last_next_token_edge g a b" by (simp add: last_next_token_edge_def)
  }
qed


lemma two_method_graph_facts:
  "edges_lead_to_nodes two_method_graph"
  "next_token_unambiguous two_method_graph"
  "tokens_by_start_pos (index_of two_method_graph) 2 = Some (token_node 2 ''Int'' 2 3)"
  "tokens_by_end_pos (index_of two_method_graph) 9 = Some (token_node 4 ''}'' 8 9)"
  by (simp_all add: edges_lead_to_nodes_def next_token_unambiguous_def two_method_graph_def
      build_index_def index_node_def empty_index_def method_node_def token_node_def next_edge_def)

text \<open>
  Claim C5, as the code has it. First part, as stated: when the current node is a node of
  the graph, is not the end node and has no outgoing \<open>NEXT_TOKEN\<close> edge, an iteration
  of the loop appends the node's lowercased contents and leaves \<open>nid\<close> where it is, and
  the loop neither returns nor raises. Second part, for a graph whose \<open>NEXT_TOKEN\<close>
  edges all lead to ids of nodes of the graph and a method whose start and end tokens are
  found: the traversal terminates if and only if the id of the end node is reached from
  the start node along edges each of which is the last \<open>NEXT_TOKEN\<close> edge out of its
  source, and it then returns normally. When in addition the \<open>NEXT_TOKEN\<close> edges out
  of one node never differ in their destination, that is: if and only if following
  \<open>NEXT_TOKEN\<close> edges from the start node reaches the id of the end node.
\<close>

theorem stuck_node_hangs_and_termination:
  "(nodes_dict (index_of g) nid = Some n \<and> nid \<noteq> end_id
      \<and> filter (\<lambda>e. sourceId e = nid \<and> edge_type e = NEXT_TOKEN) (edge g) = []
    \<longrightarrow> chain_step lower (nodes_dict (index_of g)) (edges_of g) nid tokens =
          Inr (nid, tokens @ [lower (contents n)])
        \<and> follow_chain lower (nodes_dict (index_of g)) (edges_of g) end_id nid tokens = None)
   \<and> (edges_lead_to_nodes g
      \<and> tokens_by_start_pos (index_of g) (startPosition m) = Some s
      \<and> tokens_by_end_pos (index_of g) (endPosition m) = Some e
    \<longrightarrow> ((method_tokens lower (index_of g) (edges_of g) m \<noteq> None)
           = rtranclp (last_next_token_edge g) (node_id s) (node_id e))
        \<and> (returns_normally (method_tokens lower (index_of g) (edges_of g) m)
           = rtranclp (last_next_token_edge g) (node_id s) (node_id e))
        \<and> (next_token_unambiguous g
           \<longrightarrow> ((method_tokens lower (index_of g) (edges_of g) m \<noteq> None)
                  = rtranclp (next_token_edge g) (node_id s) (node_id e))
               \<and> (returns_normally (method_tokens lower (index_of g) (edges_of g) m)
                  = rtranclp (next_token_edge g) (node_id s) (node_id e))))"
proof -
  have part1: "chain_step lower (nodes_dict (index_of g)) (edges_of g) nid tokens =
          Inr (nid, tokens @ [lower (contents n)])
        \<and> follow_chain lower (nodes_dict (index_of g)) (edges_of g) end_id nid tokens = None"
    if a: "nodes_dict (index_of g) nid = Some n \<and> nid \<noteq> end_id
      \<and> filter (\<lambda>e. sourceId e = nid \<and> edge_type e = NEXT_TOKEN) (edge g) = []"
  proof -
    from a have nx: "next_nid (edges_of g) nid = nid" by (simp add: next_nid_graph)
    with a have st: "chain_step lower (nodes_dict (index_of g)) (edges_of g) nid tokens =
          Inr (nid, tokens @ [lower (contents n)])"
      by (simp add: chain_step_def)
    have "\<forall>x\<in>{nid}. x \<noteq> end_id \<and> x \<in> dom (nodes_dict (index_of g)) \<and> next_nid (edges_of g) x \<in> {nid}"
      using a nx by auto
    then have "follow_chain lower (nodes_dict (index_of g)) (edges_of g) end_id nid tokens = None"
      by (rule follow_chain_invariant_diverges) simp
    with st show ?thesis by simp
  qed
  have part2: "((method_tokens lower (index_of g) (edges_of g) m \<noteq> None)
           = rtranclp (last_next_token_edge g) (node_id s) (node_id e))
        \<and> (returns_normally (method_tokens lower (index_of g) (edges_of g) m)
           = rtranclp (last_next_token_edge g) (node_id s) (node_id e))"
    if b: "edges_lead_to_nodes g
      \<and> tokens_by_start_pos (index_of g) (startPosition m) = Some s
      \<and> tokens_by_end_pos (index_of g) (endPosition m) = Some e"
  proof -
    from b have s: "node_id s \<in> node_id ` set (node g)"
      using tokens_by_start_pos_build_index[of "node g" "startPosition m" s] by blast
    have mt: "method_tokens lower (index_of g) (edges_of g) m =
        follow_chain lower (nodes_dict (index_of g)) (edges_of g) (node_id e) (node_id s) []"
      using b by (simp add: method_tokens_def)
    from b have el: "edges_lead_to_nodes g" by simp
    have p: "(method_tokens lower (index_of g) (edges_of g) m \<noteq> None)
           = rtranclp (last_next_token_edge g) (node_id s) (node_id e)"
      unfolding mt chain_iff_last_edge_path[symmetric]
      using chain_returns_iff_reaches(2)[OF el s, where end_id = "node_id e" and tokens = "[]" and lower = lower]
      by simp
    have q: "returns_normally (method_tokens lower (index_of g) (edges_of g) m)
           = rtranclp (last_next_token_edge g) (node_id s) (node_id e)"
      unfolding mt returns_normally_iff chain_iff_last_edge_path[symmetric]
      using chain_returns_iff_reaches(1)[OF el s, where end_id = "node_id e" and tokens = "[]" and lower = lower]
      by simp
    from p q show ?thesis by simp
  qed
  have part3: "((method_tokens lower (index_of g) (edges_of g) m \<noteq> None)
                  = rtranclp (next_token_edge g) (node_id s) (node_id e))
               \<and> (returns_normally (method_tokens lower (index_of g) (edges_of g) m)
                  = rtranclp (next_token_edge g) (node_id s) (node_id e))"
    if b: "edges_lead_to_nodes g
      \<and> tokens_by_start_pos (index_of g) (startPosition m) = Some s
      \<and> tokens_by_end_pos (index_of g) (endPosition m) = Some e"
      and u: "next_token_unambiguous g"
    using part2[OF b] unambiguous_last_edge[OF u] by simp
  from part1 part2 part3 show ?thesis by blast
qed

theorem stuck_node_hangs_and_termination_witness:
  "nodes_dict (index_of stuck_graph) 2 = Some (token_node 2 ''b'' 2 3)
   \<and> (2::int) \<noteq> 4
   \<and> filter (\<lambda>e. sourceId e = 2 \<and> edge_type e = NEXT_TOKEN) (edge stuck_graph) = []
   \<and> chain_step ascii_lower (nodes_dict (index_of stuck_graph)) (edges_of stuck_graph) 2 [''a'']
        = Inr (2, [''a'', ''b''])
   \<and> follow_chain ascii_lower (nodes_dict (index_of stuck_graph)) (edges_of stuck_graph) 4 2 [''a''] = None
   \<and> edges_lead_to_nodes fork_graph
   \<and> tokens_by_start_pos (index_of fork_graph) (startPosition (method_node 0 0 9)) =
        Some \<lparr>node_id = 1, node_type = TOKEN, contents = ''A'', startPosition = 0, endPosition = 1\<rparr>
   \<and> tokens_by_end_pos (index_of fork_graph) (endPosition (method_node 0 0 9)) =
        Some \<lparr>node_id = 4, node_type = TOKEN, contents = ''}'', startPosition = 8, endPosition = 9\<rparr>
   \<and> method_tokens ascii_lower (index_of fork_graph) (edges_of fork_graph) (method_node 0 0 9)
        = Some (Inr [''a'', ''c''])
   \<and> rtranclp (last_next_token_edge fork_graph) 1 4
   \<and> edges_lead_to_nodes two_method_graph
   \<and> next_token_unambiguous two_method_graph
   \<and> tokens_by_start_pos (index_of two_method_graph) (startPosition (method_node 5 2 9)) =
        Some (token_node 2 ''Int'' 2 3)
   \<and> tokens_by_end_pos (index_of two_method_graph) (endPosition (method_node 5 2 9)) =
        Some (token_node 4 ''}'' 8 9)
   \<and> method_tokens ascii_lower (index_of two_method_graph) (edges_of two_method_graph) (method_node 5 2 9)
        = Some (Inr [''int'', ''foo''])
   \<and> rtranclp (next_token_edge two_method_graph) 2 4"
proof -
  have l: "ascii_lower ''b'' = ''b''" by code_simp
  from stuck_node_hangs_and_termination[where lower = ascii_lower and g = stuck_graph and nid = 2
      and n = "token_node 2 ''b'' 2 3" and end_id = 4 and tokens = "[''a'']"]
    stuck_graph_facts l
  have p1: "chain_step ascii_lower (nodes_dict (index_of stuck_graph)) (edges_of stuck_graph) 2 [''a'']
        = Inr (2, [''a'', ''b''])
      \<and> follow_chain ascii_lower (nodes_dict (index_of stuck_graph)) (edges_of stuck_graph) 4 2 [''a''] = None"
    by (simp add: token_node_def)
  have m1: "method_tokens ascii_lower (index_of fork_graph) (edges_of fork_graph) (method_node 0 0 9)
        = Some (Inr [''a'', ''c''])"
    by code_simp
  from stuck_node_hangs_and_termination[where lower = ascii_lower and g = fork_graph
      and m = "method_node 0 0 9"
      and s = "\<lparr>node_id = 1, node_type = TOKEN, contents = ''A'', startPosition = 0, endPosition = 1\<rparr>"
      and e = "\<lparr>node_id = 4, node_type = TOKEN, contents = ''}'', startPosition = 8, endPosition = 9\<rparr>"]
    fork_graph_facts m1
  have p2: "rtranclp (last_next_token_edge fork_graph) 1 4"
    by (simp add: method_node_def)
  have m2: "method_tokens ascii_lower (index_of two_method_graph) (edges_of two_method_graph)
      (method_node 5 2 9) = Some (Inr [''int'', ''foo''])"
    by code_simp
  from stuck_node_hangs_and_termination[where lower = ascii_lower and g = two_method_graph
      and m = "method_node 5 2 9" and s = "token_node 2 ''Int'' 2 3" and e = "token_node 4 ''}'' 8 9"]
    two_method_graph_facts m2
  have p3: "rtranclp (next_token_edge two_method_graph) 2 4"
    by (simp add: method_node_def token_node_def)
  from p1 p2 p3 m1 m2 stuck_graph_facts fork_graph_facts two_method_graph_facts
  show ?thesis by (simp add: method_node_def)
qed

text \<open>
  Claim C5 as stated (for every graph, the traversal terminates if and only if following
  \<open>NEXT_TOKEN\<close> edges from the start node reaches the end node's id) fails in three
  graphs. In \<open>dangling_graph\<close> the chain from 1 goes to 7, the id of no node, and stays
  there, never reaching the end token 4, and the traversal terminates all the same, with
  \<open>KeyError 7\<close>. In \<open>dangling_through_graph\<close> the chain 1, 7, 4 reaches the end
  token, and the traversal does not return: it raises \<open>KeyError 7\<close>. In
  \<open>fork_dead_graph\<close>, whose edges all lead to nodes, the \<open>NEXT_TOKEN\<close> edges 1 to 2
  and 2 to 4 reach the end token 4, and the traversal, which takes the later edge 1 to 3,
  stays at 3 for ever.
\<close>

theorem dangling_edge_counterexample:
  "next_nid (edges_of dangling_graph) 1 = 7
   \<and> next_nid (edges_of dangling_graph) 7 = 7
   \<and> tokens_by_end_pos (index_of dangling_graph) 9 = Some (token_node 4 ''}'' 8 9)
   \<and> load_data_file ascii_lower dangling_graph = ([], Raised (KeyError 7))
   \<and> next_nid (edges_of dangling_through_graph) 1 = 7
   \<and> next_nid (edges_of dangling_through_graph) 7 = 4
   \<and> tokens_by_end_pos (index_of dangling_through_graph) 9 = Some (token_node 4 ''}'' 8 9)
   \<and> load_data_file ascii_lower dangling_through_graph = ([], Raised (KeyError 7))
   \<and> edges_lead_to_nodes fork_dead_graph
   \<and> tokens_by_start_pos (index_of fork_dead_graph) 0 = Some (token_node 1 ''A'' 0 1)
   \<and> tokens_by_end_pos (index_of fork_dead_graph) 9 = Some (token_node 4 ''}'' 8 9)
   \<and> next_token_edge fork_dead_graph 1 2
   \<and> next_token_edge fork_dead_graph 2 4
   \<and> rtranclp (next_token_edge fork_dead_graph) 1 4
   \<and> load_data_file ascii_lower fork_dead_graph = ([], Hangs)"
proof -
  have a: "load_data_file ascii_lower dangling_graph = ([], Raised (KeyError 7))" by code_simp
  have b: "load_data_file ascii_lower dangling_through_graph = ([], Raised (KeyError 7))" by code_simp
  have c: "next_nid (edges_of dangling_graph) 1 = 7" "next_nid (edges_of dangling_graph) 7 = 7"
    "next_nid (edges_of dangling_through_graph) 1 = 7" "next_nid (edges_of dangling_through_graph) 7 = 4"
    by (simp_all add: next_nid_graph dangling_graph_def dangling_through_graph_def next_edge_def)
  have d: "tokens_by_end_pos (index_of dangling_graph) 9 = Some (token_node 4 ''}'' 8 9)"
    "tokens_by_end_pos (index_of dangling_through_graph) 9 = Some (token_node 4 ''}'' 8 9)"
    by (simp_all add: dangling_graph_def dangling_through_graph_def build_index_def index_node_def
        empty_index_def method_node_def token_node_def)
  have ix: "methods (index_of fork_dead_graph) = [method_node 0 0 9]"
    "tokens_by_start_pos (index_of fork_dead_graph) 0 = Some (token_node 1 ''A'' 0 1)"
    "tokens_by_end_pos (index_of fork_dead_graph) 9 = Some (token_node 4 ''}'' 8 9)"
    "nodes_dict (index_of fork_dead_graph) 1 = Some (token_node 1 ''A'' 0 1)"
    "nodes_dict (index_of fork_dead_graph) 3 = Some (token_node 3 ''c'' 4 5)"
    by (simp_all add: fork_dead_graph_def build_index_def index_node_def empty_index_def
        method_node_def token_node_def)
  have el: "edges_lead_to_nodes fork_dead_graph"
    by (simp add: edges_lead_to_nodes_def fork_dead_graph_def next_edge_def token_node_def
        method_node_def)
  have e: "next_token_edge fork_dead_graph 1 2" "next_token_edge fork_dead_graph 2 4"
    by (simp_all add: next_token_edge_def fork_dead_graph_def next_edge_def)
  then have r: "rtranclp (next_token_edge fork_dead_graph) 1 4" by auto
  have nx: "next_nid (edges_of fork_dead_graph) 1 = 3" "next_nid (edges_of fork_dead_graph) 3 = 3"
    by (simp_all add: next_nid_graph fork_dead_graph_def next_edge_def)
  have inv: "\<forall>x\<in>{1, 3}. x \<noteq> 4 \<and> x \<in> dom (nodes_dict (index_of fork_dead_graph))
      \<and> next_nid (edges_of fork_dead_graph) x \<in> {1, 3}"
    using nx ix(4,5) by auto
  have "follow_chain ascii_lower (nodes_dict (index_of fork_dead_graph)) (edges_of fork_dead_graph) 4 1 []
      = None"
    by (rule follow_chain_invariant_diverges[OF inv]) simp
  then have "method_tokens ascii_lower (index_of fork_dead_graph) (edges_of fork_dead_graph)
      (method_node 0 0 9) = None"
    by (simp add: method_tokens_def ix method_node_def token_node_def)
  then have h: "load_data_file ascii_lower fork_dead_graph = ([], Hangs)"
    by (simp add: load_data_file_def Let_def ix)
  from a b c d ix(2,3) el e r h show ?thesis by simp
qed


subsection \<open>Missing boundaries and the lists yielded\<close>

text \<open>
  Claim C9, as the code has it. When the generator comes to a method root whose
  \<open>startPosition\<close> has no entry in \<open>tokens_by_start_pos\<close>, or whose \<open>endPosition\<close>
  has none in \<open>tokens_by_end_pos\<close>, the methods before it having returned, it raises
  \<open>KeyError\<close> with the missing position as its key (the start position when that one is
  missing), after the non-empty token lists of the earlier methods: the method is not
  skipped, and no later method is looked at.
\<close>

theorem missing_boundary_raises_key_error:
  assumes "methods (index_of g) = before @ m # after"
    and "list_all (\<lambda>m'. returns_normally (method_tokens lower (index_of g) (edges_of g) m')) before"
    and "tokens_by_start_pos (index_of g) (startPosition m) = None
         \<or> tokens_by_end_pos (index_of g) (endPosition m) = None"
  shows "load_data_file lower g =
           (filter (\<lambda>tokens. tokens \<noteq> [])
              (returned_prefix (map (method_tokens lower (index_of g) (edges_of g)) before)),
            Raised (KeyError (if tokens_by_start_pos (index_of g) (startPosition m) = None
                              then startPosition m else endPosition m)))"
proof -
  have mt: "method_tokens lower (index_of g) (edges_of g) m =
      Some (Inl (KeyError (if tokens_by_start_pos (index_of g) (startPosition m) = None
                           then startPosition m else endPosition m)))"
    using assms(3) by (auto simp: method_tokens_def split: option.splits)
  then have "\<not> returns_normally (method_tokens lower (index_of g) (edges_of g) m)"
    by (simp add: returns_normally_def)
  from load_data_file_stops[OF assms(1,2) this] mt show ?thesis by simp
qed

lemma unbounded_method_graph_facts:
  "methods (index_of unbounded_method_graph) = [method_node 0 0 9] @ method_node 5 50 60 # []"
  "tokens_by_start_pos (index_of unbounded_method_graph) 50 = None"
  by (simp_all add: unbounded_method_graph_def build_index_def index_node_def empty_index_def
      method_node_def token_node_def)

theorem missing_boundary_raises_key_error_witness:
  "methods (index_of unbounded_method_graph) = [method_node 0 0 9] @ method_node 5 50 60 # []
   \<and> list_all (\<lambda>m'. returns_normally
          (method_tokens ascii_lower (index_of unbounded_method_graph) (edges_of unbounded_method_graph) m'))
        [method_node 0 0 9]
   \<and> tokens_by_start_pos (index_of unbounded_method_graph) (startPosition (method_node 5 50 60)) = None
   \<and> load_data_file ascii_lower unbounded_method_graph = ([[''a'']], Raised (KeyError 50))"
proof -
  have r: "method_tokens ascii_lower (index_of unbounded_method_graph) (edges_of unbounded_method_graph)
      (method_node 0 0 9) = Some (Inr [''a''])"
    by code_simp
  then have h2: "list_all (\<lambda>m'. returns_normally
          (method_tokens ascii_lower (index_of unbounded_method_graph) (edges_of unbounded_method_graph) m'))
        [method_node 0 0 9]"
    by (simp add: returns_normally_def)
  have h3: "tokens_by_start_pos (index_of unbounded_method_graph) (startPosition (method_node 5 50 60)) = None"
    by (simp add: unbounded_method_graph_facts method_node_def)
  then have h3': "tokens_by_start_pos (index_of unbounded_method_graph) (startPosition (method_node 5 50 60)) = None
         \<or> tokens_by_end_pos (index_of unbounded_method_graph) (endPosition (method_node 5 50 60)) = None"
    by simp
  from missing_boundary_raises_key_error[OF unbounded_method_graph_facts(1) h2 h3']
    unbounded_method_graph_facts(1) h2 h3 r
  show ?thesis by (simp add: method_node_def)
qed

text \<open>
  Claim C9 as stated (every graph with such a method root makes \<open>load_data_file\<close> raise
  \<open>MissingTokenBoundaryError\<close> for the method's span) fails twice. In
  \<open>unbounded_method_graph\<close> the second method starts at position 50, where no token
  starts: the error is \<open>KeyError 50\<close>, which names one position and not the span. In
  \<open>hang_then_unbounded_graph\<close> the same method comes after a method whose traversal
  never ends: nothing is ever raised.
\<close>

theorem missing_boundary_counterexample:
  "methods (index_of unbounded_method_graph) = [method_node 0 0 9, method_node 5 50 60]
   \<and> tokens_by_start_pos (index_of unbounded_method_graph) 50 = None
   \<and> load_data_file ascii_lower unbounded_method_graph = ([[''a'']], Raised (KeyError 50))
   \<and> snd (load_data_file ascii_lower unbounded_method_graph) \<noteq> Raised (MissingTokenBoundaryError 50 60)
   \<and> methods (index_of hang_then_unbounded_graph) = [method_node 0 0 9, method_node 5 50 60]
   \<and> tokens_by_start_pos (index_of hang_then_unbounded_graph) 50 = None
   \<and> load_data_file ascii_lower hang_then_unbounded_graph = ([], Hangs)"
proof -
  have a: "load_data_file ascii_lower unbounded_method_graph = ([[''a'']], Raised (KeyError 50))"
    by code_simp
  have ix: "methods (index_of hang_then_unbounded_graph) = [method_node 0 0 9, method_node 5 50 60]"
    "tokens_by_start_pos (index_of hang_then_unbounded_graph) 50 = None"
    "tokens_by_start_pos (index_of hang_then_unbounded_graph) 0 = Some (token_node 1 ''A'' 0 1)"
    "tokens_by_end_pos (index_of hang_then_unbounded_graph) 9 = Some (token_node 4 ''}'' 8 9)"
    "nodes_dict (index_of hang_then_unbounded_graph) 1 = Some (token_node 1 ''A'' 0 1)"
    by (simp_all add: hang_then_unbounded_graph_def build_index_def index_node_def empty_index_def
        method_node_def token_node_def)
  have nx: "next_nid (edges_of hang_then_unbounded_graph) 1 = 1"
    by (simp add: next_nid_graph hang_then_unbounded_graph_def)
  have inv: "\<forall>x\<in>{1}. x \<noteq> 4 \<and> x \<in> dom (nodes_dict (index_of hang_then_unbounded_graph))
      \<and> next_nid (edges_of hang_then_unbounded_graph) x \<in> {1}"
    using nx ix(5) by auto
  have "follow_chain ascii_lower (nodes_dict (index_of hang_then_unbounded_graph))
      (edges_of hang_then_unbounded_graph) 4 1 [] = None"
    by (rule follow_chain_invariant_diverges[OF inv]) simp
  then have "method_tokens ascii_lower (index_of hang_then_unbounded_graph) (edges_of hang_then_unbounded_graph)
      (method_node 0 0 9) = None"
    by (simp add: method_tokens_def ix method_node_def token_node_def)
  then have b: "load_data_file ascii_lower hang_then_unbounded_graph = ([], Hangs)"
    by (simp add: load_data_file_def Let_def ix)
  from a b ix unbounded_method_graph_facts show ?thesis by simp
qed

lemma method_tokens_empty_iff:
  "method_tokens lower ix ed m = Some (Inr []) \<longleftrightarrow>
     (\<exists>s e. tokens_by_start_pos ix (startPosition m) = Some s
          \<and> tokens_by_end_pos ix (endPosition m) = Some e \<and> node_id s = node_id e)"
proof
  assume a: "method_tokens lower ix ed m = Some (Inr [])"
  then obtain s e where se: "tokens_by_start_pos ix (startPosition m) = Some s"
      "tokens_by_end_pos ix (endPosition m) = Some e"
    by (auto simp: method_tokens_def split: option.splits)
  with a have "follow_chain lower (nodes_dict ix) ed (node_id e) (node_id s) [] = Some (Inr [])"
    by (simp add: method_tokens_def)
  from follow_chain_tokens_grow[OF this] have "node_id s = node_id e" by auto
  with se show "\<exists>s e. tokens_by_start_pos ix (startPosition m) = Some s
          \<and> tokens_by_end_pos ix (endPosition m) = Some e \<and> node_id s = node_id e"
    by blast
next
  assume "\<exists>s e. tokens_by_start_pos ix (startPosition m) = Some s
          \<and> tokens_by_end_pos ix (endPosition m) = Some e \<and> node_id s = node_id e"
  then show "method_tokens lower ix ed m = Some (Inr [])"
    by (auto simp: method_tokens_def follow_chain_end)
qed

lemma returned_prefix_all:
  "list_all returns_normally rs \<Longrightarrow> map (\<lambda>tokens. Some (Inr tokens)) (returned_prefix rs) = rs"
  by (induction rs) (auto simp: returns_normally_iff)

text \<open>
  Claim C10. The method roots are the nodes with contents \<open>METHOD\<close>, in the order of the
  graph's node list. The lists that \<open>load_data_file\<close> yields are the non-empty ones among
  the token lists of the methods, in that order, up to the first method whose traversal
  does not return; when the generator finishes, every method has returned, so they are the
  non-empty token lists of all the methods. A traversal gives the empty list exactly when
  the start node's id is the end node's id.
\<close>

theorem yields_nonempty_lists_in_method_order:
  "methods (index_of g) = filter (\<lambda>n. contents n = ''METHOD'') (node g)
   \<and> fst (load_data_file lower g) =
       filter (\<lambda>tokens. tokens \<noteq> [])
         (returned_prefix (map (method_tokens lower (index_of g) (edges_of g)) (methods (index_of g))))
   \<and> (snd (load_data_file lower g) = Finished
       \<longrightarrow> map (\<lambda>tokens. Some (Inr tokens))
             (returned_prefix (map (method_tokens lower (index_of g) (edges_of g)) (methods (index_of g))))
           = map (method_tokens lower (index_of g) (edges_of g)) (methods (index_of g)))
   \<and> ((method_tokens lower (index_of g) (edges_of g) m = Some (Inr []))
       = (\<exists>s e. tokens_by_start_pos (index_of g) (startPosition m) = Some s
            \<and> tokens_by_end_pos (index_of g) (endPosition m) = Some e \<and> node_id s = node_id e))"
proof (intro conjI impI)
  show "methods (index_of g) = filter (\<lambda>n. contents n = ''METHOD'') (node g)"
    by (rule methods_build_index)
  show "fst (load_data_file lower g) =
       filter (\<lambda>tokens. tokens \<noteq> [])
         (returned_prefix (map (method_tokens lower (index_of g) (edges_of g)) (methods (index_of g))))"
    by (simp add: load_data_file_def Let_def run_methods_yields)
  show "(method_tokens lower (index_of g) (edges_of g) m = Some (Inr []))
       = (\<exists>s e. tokens_by_start_pos (index_of g) (startPosition m) = Some s
            \<and> tokens_by_end_pos (index_of g) (endPosition m) = Some e \<and> node_id s = node_id e)"
    by (rule method_tokens_empty_iff)
  assume "snd (load_data_file lower g) = Finished"
  then have "list_all (\<lambda>m. returns_normally (method_tokens lower (index_of g) (edges_of g) m)) (methods (index_of g))"
    by (simp add: load_data_file_def Let_def run_methods_finished)
  then have "list_all returns_normally (map (method_tokens lower (index_of g) (edges_of g)) (methods (index_of g)))"
    by (simp add: list_all_iff)
  then show "map (\<lambda>tokens. Some (Inr tokens))
             (returned_prefix (map (method_tokens lower (index_of g) (edges_of g)) (methods (index_of g))))
           = map (method_tokens lower (index_of g) (edges_of g)) (methods (index_of g))"
    by (rule returned_prefix_all)
qed

theorem yields_nonempty_lists_in_method_order_witness:
  "methods (index_of two_method_graph) = [method_node 0 0 1, method_node 5 2 9]
   \<and> snd (load_data_file ascii_lower two_method_graph) = Finished
   \<and> map (method_tokens ascii_lower (index_of two_method_graph) (edges_of two_method_graph))
        (methods (index_of two_method_graph)) = [Some (Inr []), Some (Inr [''int'', ''foo''])]
   \<and> fst (load_data_file ascii_lower two_method_graph) = [[''int'', ''foo'']]
   \<and> tokens_by_start_pos (index_of two_method_graph) 0 = Some (token_node 1 ''x'' 0 1)
   \<and> tokens_by_end_pos (index_of two_method_graph) 1 = Some (token_node 1 ''x'' 0 1)"
proof -
  have ms: "methods (index_of two_method_graph) = [method_node 0 0 1, method_node 5 2 9]"
    "tokens_by_start_pos (index_of two_method_graph) 0 = Some (token_node 1 ''x'' 0 1)"
    "tokens_by_end_pos (index_of two_method_graph) 1 = Some (token_node 1 ''x'' 0 1)"
    by (simp_all add: two_method_graph_def build_index_def index_node_def empty_index_def
        method_node_def token_node_def)
  have l: "load_data_file ascii_lower two_method_graph = ([[''int'', ''foo'']], Finished)" by code_simp
  have m2: "method_tokens ascii_lower (index_of two_method_graph) (edges_of two_method_graph) (method_node 5 2 9)
      = Some (Inr [''int'', ''foo''])"
    by code_simp
  from yields_nonempty_lists_in_method_order[where g = two_method_graph and m = "method_node 0 0 1"
      and lower = ascii_lower] ms
  have m1: "method_tokens ascii_lower (index_of two_method_graph) (edges_of two_method_graph) (method_node 0 0 1)
      = Some (Inr [])"
    by (simp add: method_node_def)
  from ms l m1 m2 show ?thesis by simp
qed


section \<open>The vocabulary builder\<close>

lemma add_or_get_id_len:
  "length (id_to_token (snd (add_or_get_id vocab token))) \<le> Suc (length (id_to_token vocab))"
  "length (id_to_token vocab) \<le> length (id_to_token (snd (add_or_get_id vocab token)))"
  by (simp_all add: add_or_get_id_def Let_def split: option.splits)

lemma add_or_get_id_keeps:
  "token_to_id vocab t = Some i \<Longrightarrow> token_to_id (snd (add_or_get_id vocab token)) t = Some i"
  by (auto simp add: add_or_get_id_def Let_def split: option.splits)

lemma add_or_get_id_prefix:
  "take (length (id_to_token vocab)) (id_to_token (snd (add_or_get_id vocab token))) = id_to_token vocab"
  by (simp add: add_or_get_id_def Let_def split: option.splits)

lemma add_all_len:
  "length (id_to_token (foldl (\<lambda>vocab kc. snd (add_or_get_id vocab (fst kc))) v kcs))
     \<le> length (id_to_token v) + length kcs"
proof (induction kcs arbitrary: v)
  case Nil
  show ?case by simp
next
  case (Cons kc kcs)
  from Cons[of "snd (add_or_get_id v (fst kc))"] add_or_get_id_len(1)[of v "fst kc"]
  show ?case by simp
qed

lemma add_all_keeps:
  "token_to_id v t = Some i \<Longrightarrow>
     token_to_id (foldl (\<lambda>vocab kc. snd (add_or_get_id vocab (fst kc))) v kcs) t = Some i"
  by (induction kcs arbitrary: v) (simp_all add: add_or_get_id_keeps)

lemma add_all_prefix:
  "take (length (id_to_token v))
     (id_to_token (foldl (\<lambda>vocab kc. snd (add_or_get_id vocab (fst kc))) v kcs)) = id_to_token v"
proof (induction kcs arbitrary: v)
  case Nil
  show ?case by simp
next
  case (Cons kc kcs)
  let ?v = "snd (add_or_get_id v (fst kc))"
  let ?r = "id_to_token (foldl (\<lambda>vocab kc. snd (add_or_get_id vocab (fst kc))) ?v kcs)"
  have "take (length (id_to_token v)) ?r
      = take (length (id_to_token v)) (take (length (id_to_token ?v)) ?r)"
    using add_or_get_id_len(2)[of v "fst kc"] by (simp add: min_def)
  also have "\<dots> = take (length (id_to_token v)) (id_to_token ?v)"
    by (simp only: Cons)
  also have "\<dots> = id_to_token v" by (rule add_or_get_id_prefix)
  finally show ?case by simp
qed

lemma most_common_len: "length (most_common cnt n) \<le> nat n"
  by (simp add: most_common_def)

lemma reserved_vocab_tokens:
  "id_to_token reserved_vocab = [get_unk, get_pad, START_SYMBOL, END_SYMBOL]"
  by (simp add: reserved_vocab_def new_Vocabulary_def add_or_get_id_def get_unk_def
      get_pad_def START_SYMBOL_def END_SYMBOL_def Let_def)

lemma build_vocab_result:
  "build_vocab_from_data_dir lower data_files vocab_size =
     (case count_files lower data_files [] of
        None \<Rightarrow> None
      | Some (Inl err) \<Rightarrow> Some (Inl err)
      | Some (Inr cnt) \<Rightarrow>
          Some (Inr (foldl (\<lambda>vocab kc. snd (add_or_get_id vocab (fst kc))) reserved_vocab
                       (most_common cnt vocab_size))))"
  unfolding build_vocab_from_data_dir_def reserved_vocab_def Let_def by (rule refl)

text \<open>
  Claim C6, as the code has it. A vocabulary that \<open>build_vocab_from_data_dir\<close> returns
  contains the four reserved symbols, as its first four entries, whatever the corpus; it
  has at most \<open>max(vocab_size, 0)\<close> further entries, so for \<open>vocab_size \<ge> 0\<close> its size
  is at most \<open>vocab_size + 4\<close>; and it has exactly the four reserved symbols when the
  corpus contributes no token or \<open>vocab_size \<le> 0\<close>.
\<close>

theorem vocabulary_size_bound:
  assumes "build_vocab_from_data_dir lower data_files vocab_size = Some (Inr vocab)"
  shows "{get_unk, get_pad, START_SYMBOL, END_SYMBOL} \<subseteq> dom (token_to_id vocab)
       \<and> take 4 (id_to_token vocab) = [get_unk, get_pad, START_SYMBOL, END_SYMBOL]
       \<and> 4 \<le> vocab_len vocab
       \<and> vocab_len vocab \<le> 4 + nat vocab_size
       \<and> (0 \<le> vocab_size \<longrightarrow> int (vocab_len vocab) \<le> vocab_size + 4)
       \<and> (vocab_size \<le> 0 \<or> count_files lower data_files [] = Some (Inr []) \<longrightarrow> vocab_len vocab = 4)"
proof -
  from assms obtain cnt where cnt: "count_files lower data_files [] = Some (Inr cnt)"
    and v: "vocab = foldl (\<lambda>vocab kc. snd (add_or_get_id vocab (fst kc))) reserved_vocab
                       (most_common cnt vocab_size)"
    by (auto simp: build_vocab_result split: option.splits sum.splits)
  have r: "token_to_id vocab get_unk = Some 0" "token_to_id vocab get_pad = Some 1"
    "token_to_id vocab START_SYMBOL = Some 2" "token_to_id vocab END_SYMBOL = Some 3"
    unfolding v by (simp_all add: add_all_keeps reserved_vocab_ids)
  have l4: "length (id_to_token reserved_vocab) = 4" by (simp add: reserved_vocab_tokens)
  have p: "take 4 (id_to_token vocab) = [get_unk, get_pad, START_SYMBOL, END_SYMBOL]"
    using add_all_prefix[of reserved_vocab "most_common cnt vocab_size", unfolded l4]
    by (simp only: v reserved_vocab_tokens)
  then have "length (take 4 (id_to_token vocab)) = 4" by simp
  then have lo: "4 \<le> vocab_len vocab" by (simp add: vocab_len_def)
  have hi: "vocab_len vocab \<le> 4 + nat vocab_size"
    using add_all_len[of reserved_vocab "most_common cnt vocab_size"]
      most_common_len[of cnt vocab_size]
    by (simp add: v vocab_len_def reserved_vocab_tokens)
  have z: "vocab_len vocab = 4" if "vocab_size \<le> 0 \<or> count_files lower data_files [] = Some (Inr [])"
  proof -
    from that cnt have "most_common cnt vocab_size = []"
      by (auto simp: most_common_def)
    then show ?thesis by (simp add: v vocab_len_def reserved_vocab_tokens)
  qed
  from r p lo hi z show ?thesis by auto
qed

lemma load_fork_graph: "load_data_file ascii_lower fork_graph = ([[''a'', ''c'']], Finished)"
  by code_simp

lemma count_fork_graph: "count_files ascii_lower [fork_graph] [] = Some (Inr [(''a'', 1), (''c'', 1)])"
  by (simp add: load_fork_graph count_tokens_def)

theorem vocabulary_size_bound_witness:
  "build_vocab_from_data_dir ascii_lower [fork_graph] 1 =
     Some (Inr (snd (add_or_get_id reserved_vocab ''a'')))
   \<and> id_to_token (snd (add_or_get_id reserved_vocab ''a'')) =
       [get_unk, get_pad, START_SYMBOL, END_SYMBOL, ''a'']
   \<and> vocab_len (snd (add_or_get_id reserved_vocab ''a'')) = 5
   \<and> int (vocab_len (snd (add_or_get_id reserved_vocab ''a''))) \<le> 1 + 4
   \<and> {get_unk, get_pad, START_SYMBOL, END_SYMBOL}
        \<subseteq> dom (token_to_id (snd (add_or_get_id reserved_vocab ''a'')))"
proof -
  have mc: "most_common [(''a'', Suc 0), (''c'', Suc 0)] 1 = [(''a'', Suc 0)]"
    by (simp add: most_common_def)
  have b: "build_vocab_from_data_dir ascii_lower [fork_graph] 1 =
     Some (Inr (snd (add_or_get_id reserved_vocab ''a'')))"
    unfolding build_vocab_result count_fork_graph by (simp add: mc)
  have t: "id_to_token (snd (add_or_get_id reserved_vocab ''a'')) =
       [get_unk, get_pad, START_SYMBOL, END_SYMBOL, ''a'']"
    by (simp add: add_or_get_id_def reserved_vocab_def new_Vocabulary_def get_unk_def
        get_pad_def START_SYMBOL_def END_SYMBOL_def Let_def)
  from vocabulary_size_bound[OF b] b t show ?thesis by (simp add: vocab_len_def)
qed

text \<open>
  Claim C6 as stated (for every target size the total size never exceeds
  \<open>vocab_size + 4\<close>) fails for a negative target size: with \<open>vocab_size = -1\<close> the
  vocabulary is that of the four reserved symbols, of size 4, and \<open>-1 + 4 = 3\<close>.
\<close>

theorem vocabulary_size_bound_counterexample:
  "build_vocab_from_data_dir ascii_lower [fork_graph] (- 1) = Some (Inr reserved_vocab)
   \<and> vocab_len reserved_vocab = 4
   \<and> \<not> int (vocab_len reserved_vocab) \<le> - 1 + 4"
proof -
  have mc: "most_common [(''a'', Suc 0), (''c'', Suc 0)] (- 1) = []"
    by (simp add: most_common_def)
  show ?thesis
    unfolding build_vocab_result count_fork_graph
    by (simp add: mc vocab_len_def reserved_vocab_tokens)
qed


section \<open>The minibatch iterator\<close>

lemma chunked_unfold_nonempty:
  "0 < n \<Longrightarrow> xs \<noteq> [] \<Longrightarrow> chunked xs n = take n xs # chunked (drop n xs) n"
  by (subst chunked.simps) simp

lemma chunked_Nil: "chunked [] n = []"
  by (subst chunked.simps) simp

lemma concat_chunked: "0 < n \<Longrightarrow> concat (chunked xs n) = xs"
proof (induction xs n rule: chunked.induct)
  case (1 xs n)
  show ?case
  proof (cases "xs = []")
    case True
    then show ?thesis by (simp add: chunked_Nil)
  next
    case False
    with 1 show ?thesis by (simp add: chunked_unfold_nonempty)
  qed
qed

lemma chunked_chunk_sizes:
  "0 < n \<Longrightarrow> c \<in> set (chunked xs n) \<Longrightarrow> c \<noteq> [] \<and> length c \<le> n"
proof (induction xs n rule: chunked.induct)
  case (1 xs n)
  show ?case
  proof (cases "xs = []")
    case True
    with 1(3) show ?thesis by (simp add: chunked_Nil)
  next
    case False
    with 1 show ?thesis by (auto simp add: chunked_unfold_nonempty)
  qed
qed

lemma emit_chunks_keep_all: "emit_chunks batch_size False chunks = chunks"
  by (induction chunks) simp_all

lemma emit_chunks_drop:
  assumes "0 < n"
  shows "chunked xs n =
           emit_chunks (int n) True (chunked xs n)
             @ (if length xs mod n = 0 then [] else [drop (length xs - length xs mod n) xs])
       \<and> concat (emit_chunks (int n) True (chunked xs n)) = take (length xs - length xs mod n) xs
       \<and> (\<forall>c\<in>set (emit_chunks (int n) True (chunked xs n)). length c = n)"
  using assms
proof (induction xs n rule: chunked.induct)
  case (1 xs n)
  show ?case
  proof (cases "xs = []")
    case True
    then show ?thesis by (simp add: chunked_Nil)
  next
    case False
    note u = chunked_unfold_nonempty[OF 1(2) False]
    show ?thesis
    proof (cases "length xs < n")
      case True
      then have d: "chunked (drop n xs) n = []" by (simp add: chunked_Nil)
      from True False show ?thesis by (simp add: u d chunked_Nil)
    next
      case ge: False
      then have le: "n \<le> length xs" by simp
      have md: "length (drop n xs) mod n = length xs mod n"
        using le by (simp add: le_mod_geq)
      have rle: "length xs mod n \<le> length xs - n"
        using md mod_less_eq_dividend[of "length (drop n xs)" n] by simp
      define a where "a = length (drop n xs) - length xs mod n"
      have an: "a + n = length xs - length xs mod n" "n + a = length xs - length xs mod n"
        using le rle by (simp_all add: a_def)
      define E where "E = emit_chunks (int n) True (chunked (drop n xs) n)"
      have ih: "chunked (drop n xs) n =
           E @ (if length (drop n xs) mod n = 0 then []
                else [drop (length (drop n xs) - length (drop n xs) mod n) (drop n xs)])
       \<and> concat E = take (length (drop n xs) - length (drop n xs) mod n) (drop n xs)
       \<and> (\<forall>c\<in>set E. length c = n)"
        unfolding E_def using 1(1) 1(2) False by simp
      have ih1: "chunked (drop n xs) n =
           E @ (if length xs mod n = 0 then [] else [drop a (drop n xs)])"
        using ih unfolding md a_def by blast
      have ih2: "concat E = take a (drop n xs)"
        using ih unfolding md a_def by blast
      have ih3: "\<forall>c\<in>set E. length c = n" using ih by blast
      have e: "emit_chunks (int n) True (chunked xs n) = take n xs # E"
        unfolding E_def u using le by simp
      have dd: "drop a (drop n xs) = drop (length xs - length xs mod n) xs"
        by (simp only: drop_drop an)
      have tt: "take n xs @ take a (drop n xs) = take (length xs - length xs mod n) xs"
        by (simp only: take_add[symmetric] an)
      have c1': "chunked xs n =
           (take n xs # E) @ (if length xs mod n = 0 then [] else [drop (length xs - length xs mod n) xs])"
        using u ih1 dd by simp
      have c1: "chunked xs n =
           emit_chunks (int n) True (chunked xs n)
             @ (if length xs mod n = 0 then [] else [drop (length xs - length xs mod n) xs])"
        by (rule trans[OF c1']) (simp only: e)
      have c2: "concat (emit_chunks (int n) True (chunked xs n)) = take (length xs - length xs mod n) xs"
        unfolding e using ih2 tt by simp
      have c3: "\<forall>c\<in>set (emit_chunks (int n) True (chunked xs n)). length c = n"
        unfolding e using ih3 le by simp
      from c1 c2 c3 show ?thesis by blast
    qed
  qed
qed


lemma length_concat_gather:
  "length (concat (map (gather_rows token_seqs) chunks)) = length (concat chunks)"
  by (induction chunks) (simp_all add: gather_rows_def)

text \<open>
  Claim C7. For \<open>N\<close> rows, a positive \<open>batch_size\<close> and a \<open>shuffle\<close> that permutes
  its argument: the chunks of row indices of the emitted batches, put end to end, have no
  duplicate; all the chunks, before the remainder is dropped, put end to end are a
  permutation of \<open>0..N-1\<close>, the shuffled list when \<open>is_training\<close> is true and
  \<open>0..N-1\<close> itself when it is false; every chunk is non-empty and no longer than
  \<open>batch_size\<close>. With \<open>drop_remainder\<close> true every emitted chunk has exactly
  \<open>batch_size\<close> indices, the emitted rows number \<open>N - N mod batch_size\<close>, and the
  chunks not emitted are at most the one final shorter chunk; with \<open>drop_remainder\<close>
  false every chunk is emitted, \<open>N\<close> rows in all.
\<close>

theorem minibatches_partition_rows:
  assumes "0 < batch_size" and "\<forall>xs. mset (shuffle xs) = mset xs"
  shows "\<exists>chunks all_chunks batches.
       minibatch_index_chunks shuffle (length token_seqs) batch_size is_training drop_remainder
         = Inr chunks
     \<and> minibatch_index_chunks shuffle (length token_seqs) batch_size is_training False
         = Inr all_chunks
     \<and> get_minibatch_iterator shuffle token_seqs batch_size is_training drop_remainder = Inr batches
     \<and> batches = map (gather_rows token_seqs) chunks
     \<and> distinct (concat chunks)
     \<and> mset (concat all_chunks) = mset [0..<length token_seqs]
     \<and> concat all_chunks =
           (if is_training then shuffle [0..<length token_seqs] else [0..<length token_seqs])
     \<and> (\<forall>c\<in>set all_chunks. c \<noteq> [] \<and> length c \<le> nat batch_size)
     \<and> (if drop_remainder
         then (\<forall>c\<in>set chunks. length c = nat batch_size)
              \<and> length (concat batches) = length token_seqs - length token_seqs mod nat batch_size
              \<and> all_chunks =
                  chunks @ (if length token_seqs mod nat batch_size = 0 then []
                            else [drop (length token_seqs - length token_seqs mod nat batch_size)
                                    (concat all_chunks)])
         else chunks = all_chunks \<and> length (concat batches) = length token_seqs)"
proof -
  define N where "N = length token_seqs"
  define b where "b = nat batch_size"
  define idx where "idx = (if is_training then shuffle [0..<N] else [0..<N])"
  define all_chunks where "all_chunks = chunked idx b"
  define chunks where "chunks = emit_chunks batch_size drop_remainder all_chunks"
  define batches where "batches = map (gather_rows token_seqs) chunks"
  have b: "0 < b" "int b = batch_size" using assms(1) by (simp_all add: b_def)
  have nneg: "\<not> batch_size < 0" using assms(1) by simp
  have ms: "mset idx = mset [0..<N]" using assms(2) by (simp add: idx_def)
  then have dist: "distinct idx" using mset_eq_imp_distinct_iff[OF ms] by simp
  have len: "length idx = N" using mset_eq_length[OF ms] by simp
  have cc: "concat all_chunks = idx" unfolding all_chunks_def by (rule concat_chunked[OF b(1)])
  have r1: "minibatch_index_chunks shuffle (length token_seqs) batch_size is_training drop_remainder
         = Inr chunks"
    using nneg
    by (simp add: minibatch_index_chunks_def Let_def chunks_def all_chunks_def idx_def N_def b_def)
  have r2: "minibatch_index_chunks shuffle (length token_seqs) batch_size is_training False
         = Inr all_chunks"
    using nneg
    by (simp add: minibatch_index_chunks_def Let_def all_chunks_def idx_def N_def b_def
        emit_chunks_keep_all)
  have r3: "get_minibatch_iterator shuffle token_seqs batch_size is_training drop_remainder = Inr batches"
    by (simp add: get_minibatch_iterator_def r1 batches_def)
  have sizes: "\<forall>c\<in>set all_chunks. c \<noteq> [] \<and> length c \<le> nat batch_size"
    using chunked_chunk_sizes[OF b(1), of _ idx] by (simp add: all_chunks_def b_def)
  note d = emit_chunks_drop[OF b(1), of idx, unfolded b(2) len, folded all_chunks_def]
  have keep: "chunks = all_chunks" if "\<not> drop_remainder"
    using that by (simp add: chunks_def emit_chunks_keep_all)
  have dropped: "chunks = emit_chunks batch_size True all_chunks" if "drop_remainder"
    using that by (simp add: chunks_def)
  have cd: "concat chunks = (if drop_remainder then take (N - N mod b) idx else idx)"
  proof (cases drop_remainder)
    case True
    show ?thesis unfolding dropped[OF True] using d True by simp
  next
    case False
    show ?thesis unfolding keep[OF False] using cc False by simp
  qed
  have p5: "distinct (concat chunks)"
    using dist by (simp add: cd)
  have lb: "length (concat batches) = length (concat chunks)"
    unfolding batches_def by (rule length_concat_gather)
  have p9: "if drop_remainder
         then (\<forall>c\<in>set chunks. length c = nat batch_size)
              \<and> length (concat batches) = length token_seqs - length token_seqs mod nat batch_size
              \<and> all_chunks =
                  chunks @ (if length token_seqs mod nat batch_size = 0 then []
                            else [drop (length token_seqs - length token_seqs mod nat batch_size)
                                    (concat all_chunks)])
         else chunks = all_chunks \<and> length (concat batches) = length token_seqs"
  proof (cases drop_remainder)
    case True
    have f1: "length (concat batches) = N - N mod b"
      using True len by (simp add: lb cd)
    have f2: "\<forall>c\<in>set chunks. length c = b"
      unfolding dropped[OF True] using d by blast
    have f3: "all_chunks = chunks @ (if N mod b = 0 then [] else [drop (N - N mod b) (concat all_chunks)])"
      unfolding cc dropped[OF True] using d by blast
    from f1 f2 f3 show ?thesis
      unfolding N_def[symmetric] b_def[symmetric] if_P[OF True] by blast
  next
    case False
    have g1: "chunks = all_chunks" by (rule keep[OF False])
    have g2: "length (concat batches) = N"
      using False len by (simp add: lb cd)
    from g1 g2 show ?thesis
      unfolding N_def[symmetric] b_def[symmetric] if_not_P[OF False] by blast
  qed
  have p6: "mset (concat all_chunks) = mset [0..<length token_seqs]"
    using ms cc by (simp add: N_def)
  have p7: "concat all_chunks =
           (if is_training then shuffle [0..<length token_seqs] else [0..<length token_seqs])"
    using cc by (simp add: idx_def N_def)
  from r1 r2 r3 p5 p6 p7 sizes p9 show ?thesis
    unfolding batches_def by blast
qed

theorem minibatches_partition_rows_witness:
  "(0::int) < 2
   \<and> (\<forall>xs::nat list. mset (rev xs) = mset xs)
   \<and> minibatch_index_chunks rev (length [[10], [11], [12], [13], [14::nat]]) 2 True True
        = Inr [[4, 3], [2, 1]]
   \<and> minibatch_index_chunks rev (length [[10], [11], [12], [13], [14::nat]]) 2 True False
        = Inr [[4, 3], [2, 1], [0]]
   \<and> get_minibatch_iterator rev [[10], [11], [12], [13], [14::nat]] 2 True True
        = Inr [[[14], [13]], [[12], [11]]]
   \<and> (\<exists>batches. get_minibatch_iterator rev [[10], [11], [12], [13], [14::nat]] 2 True True = Inr batches
         \<and> length (concat batches)
            = length [[10], [11], [12], [13], [14::nat]] - length [[10], [11], [12], [13], [14::nat]] mod nat 2)"
proof -
  have h1: "(0::int) < 2" by simp
  have h2: "\<forall>xs::nat list. mset (rev xs) = mset xs" by simp
  have v1: "minibatch_index_chunks rev (length [[10], [11], [12], [13], [14::nat]]) 2 True True
        = Inr [[4, 3], [2, 1]]"
    by code_simp
  have v2: "minibatch_index_chunks rev (length [[10], [11], [12], [13], [14::nat]]) 2 True False
        = Inr [[4, 3], [2, 1], [0]]"
    by code_simp
  have v3: "get_minibatch_iterator rev [[10], [11], [12], [13], [14::nat]] 2 True True
        = Inr [[[14], [13]], [[12], [11]]]"
    by code_simp
  from minibatches_partition_rows[OF h1 h2, of "[[10], [11], [12], [13], [14::nat]]" True True]
  have "\<exists>batches. get_minibatch_iterator rev [[10], [11], [12], [13], [14::nat]] 2 True True = Inr batches
         \<and> length (concat batches)
            = length [[10], [11], [12], [13], [14::nat]] - length [[10], [11], [12], [13], [14::nat]] mod nat 2"
    by auto
  with h1 h2 v1 v2 v3 show ?thesis by blast
qed


end
